theory Spec2Isabelle
  imports Complex_Main "HOL-Library.Word"
begin

section \<open>Data model\<close>

text \<open>
  A frame is the array that the video decoder hands to the script: rows of pixels, each
  pixel a list of 8-bit unsigned channel values (blue, green, red). The nesting of the
  lists is the nesting of the array's three axes.
\<close>

type_synonym pixel = "8 word list"
type_synonym plane = "8 word list list"
type_synonym frame = "pixel list list"

definition height :: "'a list list \<Rightarrow> nat" where
  "height a = length a"

definition width :: "'a list list \<Rightarrow> nat" where
  "width a = (case a of [] \<Rightarrow> 0 | row # _ \<Rightarrow> length row)"

definition depth :: "frame \<Rightarrow> nat" where
  "depth a = (case a of (px # _) # _ \<Rightarrow> length px | _ \<Rightarrow> 0)"

text \<open>\<open>frame.shape\<close> and \<open>frame.size\<close>.\<close>

definition shape :: "frame \<Rightarrow> nat \<times> nat \<times> nat" where
  "shape a = (height a, width a, depth a)"

definition size_of :: "frame \<Rightarrow> nat" where
  "size_of a = height a * width a * depth a"

text \<open>
  A decoded frame is rectangular, has at least one pixel, and has three channels.
  Arrays with an empty axis are outside the model.
\<close>

definition frame_ok :: "frame \<Rightarrow> bool" where
  "frame_ok a \<longleftrightarrow>
     a \<noteq> [] \<and> width a \<noteq> 0 \<and>
     (\<forall>row \<in> set a. length row = width a \<and> (\<forall>px \<in> set row. length px = 3))"

text \<open>The exceptions that the transforms can raise.\<close>

datatype error = ValueError | ZeroDivisionError | OverflowError | IndexError | CvError

section \<open>Color banding\<close>

text \<open>
  \<open>(frame // (256 // levels)) * (256 // levels)\<close>: the two outer operations combine an
  array of 8-bit values with a Python integer. The integer \<open>256 // levels\<close> is 256 when
  \<open>levels\<close> is 1, which no 8-bit value holds. NumPy's value-based promotion then computes
  both operations in 16 bits; its weak-scalar promotion (NumPy 2) rejects the operand with
  OverflowError. Which rule applies is a parameter of the model. The level count is a
  natural number; \<open>256 // 0\<close> on Python integers raises ZeroDivisionError, whereas an
  array divided by the integer 0 is 0 in every element.
\<close>

datatype promotion = ValueBased | WeakScalar

definition np_floor_divide :: "8 word \<Rightarrow> nat \<Rightarrow> nat" where
  "np_floor_divide v s = (if s = 0 then 0 else unat v div s)"

definition np_multiply :: "nat \<Rightarrow> nat \<Rightarrow> nat" where
  "np_multiply q s = (q * s) mod (if s \<le> 255 then 256 else 65536)"

definition color_banding :: "promotion \<Rightarrow> frame \<Rightarrow> nat \<Rightarrow> error + frame" where
  "color_banding pr frame levels =
     (if levels = 0 then Inl ZeroDivisionError
      else if pr = WeakScalar \<and> 255 < 256 div levels then Inl OverflowError
      else Inr (map (map (map (\<lambda>v.
             of_nat (np_multiply (np_floor_divide v (256 div levels)) (256 div levels))))) frame))"

section \<open>Random sources\<close>

text \<open>
  The script draws from NumPy's global generator. The model makes the generator an explicit
  argument: the stream of raw draws still to come. A call that draws \<open>n\<close> numbers reads the
  first \<open>n\<close> raw draws and returns the stream advanced by \<open>n\<close>.

  \<open>np.random.randint(low, high, size)\<close> returns \<open>size\<close> integers from the half-open
  interval from \<open>low\<close> up to but excluding \<open>high\<close>; each raw draw is reduced into that
  interval, so every value of the interval can occur and no other. It raises ValueError when
  the interval is empty or the size negative; a size of 0 returns the empty array before
  the bounds are looked at. All lower bounds of the script are natural numbers.
\<close>

type_synonym rng = "nat \<Rightarrow> nat"

definition advance :: "nat \<Rightarrow> rng \<Rightarrow> rng" where
  "advance n g = (\<lambda>k. g (k + n))"

definition randint :: "nat \<Rightarrow> int \<Rightarrow> int \<Rightarrow> rng \<Rightarrow> error + (nat list \<times> rng)" where
  "randint low high n g =
     (if n = 0 then Inr ([], g)
      else if high \<le> int low then Inl ValueError
      else if n < 0 then Inl ValueError
      else Inr (map (\<lambda>k. low + g k mod nat (high - int low)) [0..<nat n], advance (nat n) g))"

text \<open>The same call without a size returns one integer.\<close>

definition randint1 :: "nat \<Rightarrow> int \<Rightarrow> rng \<Rightarrow> error + (nat \<times> rng)" where
  "randint1 low high g =
     (if high \<le> int low then Inl ValueError
      else Inr (low + g 0 mod nat (high - int low), advance 1 g))"

text \<open>
  \<open>np.random.rand()\<close> returns a double of the half-open unit interval with 53 random bits:
  one of the values \<open>k / 2^53\<close> with \<open>k < 2^53\<close>, the value 0 included.
\<close>

definition rand :: "rng \<Rightarrow> rat \<times> rng" where
  "rand g = (of_nat (g 0 mod 2 ^ 53) / 2 ^ 53, advance 1 g)"

section \<open>Salt-and-pepper noise\<close>

text \<open>
  \<open>[np.random.randint(0, i - 1, n) for i in frame.shape]\<close> draws one index array per axis
  of the frame, the channel axis included, in this order.
\<close>

definition sample_coords :: "frame \<Rightarrow> int \<Rightarrow> rng \<Rightarrow> error + ((nat list \<times> nat list \<times> nat list) \<times> rng)" where
  "sample_coords frame n g =
     (case randint 0 (int (height frame) - 1) n g of
        Inl e \<Rightarrow> Inl e
      | Inr (rows, g1) \<Rightarrow>
     (case randint 0 (int (width frame) - 1) n g1 of
        Inl e \<Rightarrow> Inl e
      | Inr (cols, g2) \<Rightarrow>
     (case randint 0 (int (depth frame) - 1) n g2 of
        Inl e \<Rightarrow> Inl e
      | Inr (chans, g3) \<Rightarrow> Inr ((rows, cols, chans), g3))))"

text \<open>
  \<open>a[rows, cols, :] = v\<close> pairs the two index arrays element by element and overwrites every
  channel of each pixel so addressed; an index beyond an axis raises IndexError.
\<close>

definition set_pixel :: "8 word \<Rightarrow> nat \<times> nat \<Rightarrow> frame \<Rightarrow> frame" where
  "set_pixel v rc a = (case rc of (r, c) \<Rightarrow> a[r := (a ! r)[c := map (\<lambda>_. v) (a ! r ! c)]])"

definition assign_pixels :: "frame \<Rightarrow> nat list \<Rightarrow> nat list \<Rightarrow> 8 word \<Rightarrow> error + frame" where
  "assign_pixels a rows cols v =
     (if \<forall>rc \<in> set (zip rows cols). fst rc < height a \<and> snd rc < width a
      then Inr (fold (set_pixel v) (zip rows cols) a)
      else Inl IndexError)"

text \<open>
  The amount is a float in the script and a rational here; \<open>np.ceil\<close> of the product is
  taken exactly. \<open>frame.copy()\<close> is the same value in a new array.
\<close>

definition num_salt :: "frame \<Rightarrow> rat \<Rightarrow> int" where
  "num_salt frame amount = \<lceil>amount * of_nat (size_of frame) * (1 / 2)\<rceil>"

definition num_pepper :: "frame \<Rightarrow> rat \<Rightarrow> int" where
  "num_pepper frame amount = \<lceil>amount * of_nat (size_of frame) * (1 / 2)\<rceil>"

definition salt_and_pepper_noise :: "frame \<Rightarrow> rat \<Rightarrow> rng \<Rightarrow> error + (frame \<times> rng)" where
  "salt_and_pepper_noise frame amount g =
     (let noisy_frame = frame in
      case sample_coords frame (num_salt frame amount) g of
        Inl e \<Rightarrow> Inl e
      | Inr ((rows, cols, _), g1) \<Rightarrow>
     (case assign_pixels noisy_frame rows cols 255 of
        Inl e \<Rightarrow> Inl e
      | Inr salted \<Rightarrow>
     (case sample_coords frame (num_pepper frame amount) g1 of
        Inl e \<Rightarrow> Inl e
      | Inr ((rows', cols', _), g2) \<Rightarrow>
     (case assign_pixels salted rows' cols' 0 of
        Inl e \<Rightarrow> Inl e
      | Inr peppered \<Rightarrow> Inr (peppered, g2)))))"

section \<open>Chromatic aberration\<close>

text \<open>
  \<open>cv2.split\<close> returns one plane per channel; \<open>cv2.merge\<close> interleaves planes of equal
  size and fails otherwise. \<open>np.roll(p, s, axis=1)\<close> moves every element of every row
  \<open>s\<close> places to the right, those pushed out at one end coming back in at the other.
\<close>

definition cv2_split :: "frame \<Rightarrow> plane list" where
  "cv2_split a = map (\<lambda>k. map (map (\<lambda>px. px ! k)) a) [0..<depth a]"

definition cv2_merge :: "plane list \<Rightarrow> error + frame" where
  "cv2_merge ps =
     (case ps of
        [] \<Rightarrow> Inl CvError
      | p # _ \<Rightarrow>
          if \<forall>q \<in> set ps. map length q = map length p
          then Inr (map (\<lambda>r. map (\<lambda>c. map (\<lambda>q. q ! r ! c) ps) [0..<length (p ! r)]) [0..<length p])
          else Inl CvError)"

definition np_roll :: "'a list \<Rightarrow> int \<Rightarrow> 'a list" where
  "np_roll xs s =
     (if xs = [] then []
      else let k = nat (s mod int (length xs))
           in drop (length xs - k) xs @ take (length xs - k) xs)"

definition np_roll_axis1 :: "'a list list \<Rightarrow> int \<Rightarrow> 'a list list" where
  "np_roll_axis1 p s = map (\<lambda>row. np_roll row s) p"

text \<open>Unpacking the split into \<open>b, g, r\<close> raises ValueError unless there are three planes.\<close>

definition chromatic_aberration :: "frame \<Rightarrow> int \<Rightarrow> error + frame" where
  "chromatic_aberration frame shift =
     (case cv2_split frame of
        [b, g, r] \<Rightarrow>
          (let b' = np_roll_axis1 b shift;
               r' = np_roll_axis1 r (- shift)
           in cv2_merge [b', g, r'])
      | _ \<Rightarrow> Inl ValueError)"

section \<open>Motion blur\<close>

text \<open>
  The kernel is a square array of floats, zero but for its middle row, which holds
  \<open>1 / kernel_size\<close> throughout; rationals stand for the floats. \<open>np.zeros\<close> raises
  ValueError on a negative size, and the row index 0 is out of range in an empty kernel.
\<close>

definition line_kernel :: "int \<Rightarrow> error + rat list list" where
  "line_kernel kernel_size =
     (if kernel_size < 0 then Inl ValueError
      else if kernel_size = 0 then Inl IndexError
      else let n = nat kernel_size;
               zeros = replicate n (replicate n 0);
               kern = zeros[nat ((kernel_size - 1) div 2) := replicate n 1]
           in Inr (map (map (\<lambda>x. x / of_int kernel_size)) kern))"

text \<open>
  \<open>cv2.filter2D(src, -1, kern)\<close> correlates every channel with the kernel, anchored at
  the kernel's centre, reading beyond the border by reflection without repeating the edge
  pixel, and stores each sum rounded to the nearest integer (ties to even) and saturated
  to 8 bits.
\<close>

definition border_reflect_101 :: "int \<Rightarrow> nat \<Rightarrow> nat" where
  "border_reflect_101 p len =
     (if len = 1 then 0
      else let period = 2 * (int len - 1); q = p mod period
           in nat (if q < int len then q else period - q))"

definition cv_round :: "rat \<Rightarrow> int" where
  "cv_round x =
     (let f = \<lfloor>x\<rfloor>; d = x - of_int f
      in if d < 1 / 2 then f else if 1 / 2 < d then f + 1 else if even f then f else f + 1)"

definition saturate_u8 :: "int \<Rightarrow> 8 word" where
  "saturate_u8 i = (if i < 0 then 0 else if 255 < i then 255 else of_int i)"

definition cv2_filter2D :: "frame \<Rightarrow> rat list list \<Rightarrow> frame" where
  "cv2_filter2D src kern =
     (let h = height src; w = width src;
          kh = height kern; kw = width kern;
          ay = kh div 2; ax = kw div 2
      in map (\<lambda>y. map (\<lambda>x. map (\<lambda>ch.
           saturate_u8 (cv_round (\<Sum>i\<leftarrow>[0..<kh]. \<Sum>j\<leftarrow>[0..<kw].
             kern ! i ! j *
             of_nat (unat (src ! border_reflect_101 (int y + int i - int ay) h
                               ! border_reflect_101 (int x + int j - int ax) w ! ch)))))
           [0..<depth src]) [0..<w]) [0..<h])"

definition motion_blur :: "frame \<Rightarrow> int \<Rightarrow> error + frame" where
  "motion_blur frame kernel_size =
     (case line_kernel kernel_size of
        Inl e \<Rightarrow> Inl e
      | Inr kern \<Rightarrow> Inr (cv2_filter2D frame kern))"

section \<open>Transforms that rest on OpenCV routines\<close>

text \<open>
  Some transforms hand the frame to OpenCV routines whose code is not part of the script:
  the normal sampler behind \<open>cv2.randn\<close>, the JPEG codec, the camera-matrix and
  undistortion routines, the Gaussian kernel and the rasteriser of filled circles. They
  are parameters of the model, collected in one record together with NumPy's promotion
  rule. \<open>randn_sample\<close> turns a standard deviation and one raw draw of OpenCV's own
  generator into the 8-bit value that \<open>cv2.randn\<close> stores; \<open>jpeg_roundtrip\<close> is
  \<open>cv2.imdecode\<close> after \<open>cv2.imencode\<close> at a quality; \<open>circle_covers\<close> says whether
  the filled circle of a centre and radius covers the pixel at a column and row.
\<close>

record library =
  np_promotion :: promotion
  randn_sample :: "rat \<Rightarrow> nat \<Rightarrow> 8 word"
  jpeg_roundtrip :: "int \<Rightarrow> frame \<Rightarrow> frame"
  optimal_new_camera_matrix :: "rat list list \<Rightarrow> rat list \<Rightarrow> nat \<times> nat \<Rightarrow> rat \<Rightarrow> rat list list"
  undistort :: "frame \<Rightarrow> rat list list \<Rightarrow> rat list \<Rightarrow> rat list list \<Rightarrow> frame"
  gaussian_kernel :: "nat \<Rightarrow> rat \<Rightarrow> rat list"
  circle_covers :: "nat \<times> nat \<Rightarrow> nat \<Rightarrow> nat \<times> nat \<Rightarrow> bool"

text \<open>
  What the documentation of these routines says about sizes: the decoded image has the
  size of the encoded one, the undistorted image has the size of its source, and the
  Gaussian kernel of a given size has that many coefficients.
\<close>

definition cv2_contract :: "library \<Rightarrow> bool" where
  "cv2_contract lib \<longleftrightarrow>
     (\<forall>q a. frame_ok a \<longrightarrow> frame_ok (jpeg_roundtrip lib q a) \<and> shape (jpeg_roundtrip lib q a) = shape a) \<and>
     (\<forall>a K D K'. frame_ok a \<longrightarrow> frame_ok (undistort lib a K D K') \<and> shape (undistort lib a K D K') = shape a) \<and>
     (\<forall>n sigma. length (gaussian_kernel lib n sigma) = n)"

subsection \<open>Gaussian noise\<close>

text \<open>
  \<open>np.zeros_like\<close> makes an array of the frame's shape; \<open>cv2.randn\<close> fills it in place,
  element by element in storage order, from OpenCV's generator; \<open>cv2.add\<close> adds two
  arrays of equal size with saturation.
\<close>

definition zeros_like :: "frame \<Rightarrow> frame" where
  "zeros_like a = map (map (map (\<lambda>_. 0))) a"

definition cv2_randn :: "library \<Rightarrow> frame \<Rightarrow> rat \<Rightarrow> rng \<Rightarrow> frame \<times> rng" where
  "cv2_randn lib a sigma g =
     (map (\<lambda>r. map (\<lambda>c. map (\<lambda>k.
          randn_sample lib sigma (g ((r * width a + c) * depth a + k)))
        [0..<length (a ! r ! c)]) [0..<length (a ! r)]) [0..<length a],
      advance (size_of a) g)"

definition saturating_add :: "8 word \<Rightarrow> 8 word \<Rightarrow> 8 word" where
  "saturating_add x y = (if 255 < unat x + unat y then 255 else x + y)"

definition cv2_add :: "frame \<Rightarrow> frame \<Rightarrow> error + frame" where
  "cv2_add a b =
     (if map (map length) a = map (map length) b
      then Inr (map2 (map2 (map2 saturating_add)) a b)
      else Inl CvError)"

definition gaussian_noise :: "library \<Rightarrow> frame \<Rightarrow> rat \<Rightarrow> rng \<Rightarrow> error + (frame \<times> rng)" where
  "gaussian_noise lib frame noise_level cg =
     (let noise = zeros_like frame;
          (noise', cg') = cv2_randn lib noise noise_level cg
      in case cv2_add frame noise' of
           Inl e \<Rightarrow> Inl e
         | Inr noisy_frame \<Rightarrow> Inr (noisy_frame, cg'))"

subsection \<open>Compression artifacts\<close>

definition compression_artifacts :: "library \<Rightarrow> frame \<Rightarrow> int \<Rightarrow> frame" where
  "compression_artifacts lib frame compression_quality =
     jpeg_roundtrip lib compression_quality frame"

subsection \<open>Lens distortion\<close>

definition lens_distortion :: "library \<Rightarrow> frame \<Rightarrow> rat \<Rightarrow> rat \<Rightarrow> frame" where
  "lens_distortion lib frame k1 k2 =
     (let h = height frame; w = width frame;
          K = [[of_nat w, 0, of_nat w / 2],
               [0, of_nat w, of_nat h / 2],
               [0, 0, 1]];
          D = [k1, k2, 0, 0];
          new_K = optimal_new_camera_matrix lib K D (w, h) 0
      in undistort lib frame K D new_K)"

subsection \<open>Vignetting\<close>

text \<open>
  The mask is the outer product of the two Gaussian kernels divided by its largest
  element; \<open>max\<close> of an empty array raises ValueError. \<open>np.empty_like\<close> gives an array
  of the frame's shape with arbitrary content, zeros here; the loop overwrites channel
  0, 1 and 2 of every pixel. Reading a channel that the frame lacks raises IndexError;
  multiplying a plane by a mask of another shape raises ValueError. The product is a
  float, stored into the 8-bit array by truncation.
\<close>

definition outer_product :: "rat list \<Rightarrow> rat list \<Rightarrow> rat list list" where
  "outer_product ys xs = map (\<lambda>y. map (\<lambda>x. y * x) xs) ys"

definition truncate_u8 :: "rat \<Rightarrow> 8 word" where
  "truncate_u8 x = of_int (if x < 0 then - \<lfloor>- x\<rfloor> else \<lfloor>x\<rfloor>)"

definition set_channel :: "nat \<Rightarrow> plane \<Rightarrow> frame \<Rightarrow> frame" where
  "set_channel i p a = map2 (map2 (\<lambda>px v. px[i := v])) a p"

fun vignette_loop :: "frame \<Rightarrow> rat list list \<Rightarrow> nat list \<Rightarrow> frame \<Rightarrow> error + frame" where
  "vignette_loop frame msk [] vignette_frame = Inr vignette_frame"
| "vignette_loop frame msk (i # js) vignette_frame =
     (if depth frame \<le> i then Inl IndexError
      else if map length frame \<noteq> map length msk then Inl ValueError
      else vignette_loop frame msk js
             (set_channel i
                (map2 (map2 (\<lambda>px m. truncate_u8 (of_nat (unat (px ! i)) * m))) frame msk)
                vignette_frame))"

definition vignetting :: "library \<Rightarrow> frame \<Rightarrow> error + frame" where
  "vignetting lib frame =
     (let h = height frame; w = width frame;
          X_resultant_kernel = gaussian_kernel lib w (of_nat w / 2);
          Y_resultant_kernel = gaussian_kernel lib h (of_nat h / 2);
          kern = outer_product Y_resultant_kernel X_resultant_kernel
      in case concat kern of
           [] \<Rightarrow> Inl ValueError
         | x # xs \<Rightarrow>
             (let msk = map (map (\<lambda>v. v / fold max xs x)) kern;
                  vignette_frame = zeros_like frame
              in vignette_loop frame msk [0..<3] vignette_frame))"

subsection \<open>Dust and dirt particles\<close>

text \<open>
  \<open>cv2.circle\<close> with thickness -1 overwrites, in the array it is given, the pixels that
  the filled circle covers; the colour tuple has three equal entries, a fourth channel
  would get 0. Each particle draws its column, row, radius and grey value in this order.
  \<open>range\<close> of a negative count is empty.
\<close>

definition cv2_circle :: "library \<Rightarrow> frame \<Rightarrow> nat \<times> nat \<Rightarrow> nat \<Rightarrow> nat \<Rightarrow> frame" where
  "cv2_circle lib a centre radius color =
     map (\<lambda>(y, row). map (\<lambda>(x, px).
            if circle_covers lib centre radius (x, y)
            then map (\<lambda>k. if k < 3 then of_nat color else 0) [0..<length px]
            else px)
          (enumerate 0 row))
       (enumerate 0 a)"

fun dust_loop :: "library \<Rightarrow> nat \<Rightarrow> nat \<Rightarrow> nat \<Rightarrow> frame \<Rightarrow> rng \<Rightarrow> error + (frame \<times> rng)" where
  "dust_loop lib h w 0 dusty_frame g = Inr (dusty_frame, g)"
| "dust_loop lib h w (Suc n) dusty_frame g =
     (case randint1 0 (int w) g of
        Inl e \<Rightarrow> Inl e
      | Inr (x, g1) \<Rightarrow>
     (case randint1 0 (int h) g1 of
        Inl e \<Rightarrow> Inl e
      | Inr (y, g2) \<Rightarrow>
     (case randint1 5 15 g2 of
        Inl e \<Rightarrow> Inl e
      | Inr (radius, g3) \<Rightarrow>
     (case randint1 50 100 g3 of
        Inl e \<Rightarrow> Inl e
      | Inr (color, g4) \<Rightarrow>
          dust_loop lib h w n (cv2_circle lib dusty_frame (x, y) radius color) g4))))"

definition dust_dirt_particles :: "library \<Rightarrow> frame \<Rightarrow> int \<Rightarrow> rng \<Rightarrow> error + (frame \<times> rng)" where
  "dust_dirt_particles lib frame num_particles g =
     (let dusty_frame = frame;
          h = height frame; w = width frame
      in dust_loop lib h w (nat num_particles) dusty_frame g)"

section \<open>Arrays as objects\<close>

text \<open>
  The definitions above compute with the values of arrays. Whether a transform leaves
  the array it is given alone is a question about objects: \<open>frame.copy()\<close>,
  \<open>np.zeros_like\<close> and \<open>np.empty_like\<close> make new arrays, an indexed assignment,
  \<open>cv2.randn\<close> and \<open>cv2.circle\<close> write into the array they are given, and every other
  call returns a new array. The state of the process holds the arrays that exist, each
  at its position in a list, the two generators, the console and the files written.
\<close>

record sink =
  sink_fourcc :: string
  sink_fps :: rat
  sink_size :: "int \<times> int"
  written :: "frame list"

record world =
  heap :: "frame list"
  np_random :: rng
  cv_random :: rng
  console :: "string list"
  videos :: "string \<rightharpoonup> sink"
  images :: "string \<rightharpoonup> frame"

definition new_array :: "frame \<Rightarrow> world \<Rightarrow> nat \<times> world" where
  "new_array a s = (length (heap s), s\<lparr>heap := heap s @ [a]\<rparr>)"

definition array_at :: "world \<Rightarrow> nat \<Rightarrow> frame" where
  "array_at s p = heap s ! p"

definition put_array :: "nat \<Rightarrow> frame \<Rightarrow> world \<Rightarrow> world" where
  "put_array p a s = s\<lparr>heap := (heap s)[p := a]\<rparr>"

definition gaussian_noise_ref :: "library \<Rightarrow> nat \<Rightarrow> rat \<Rightarrow> world \<Rightarrow> error + (nat \<times> world)" where
  "gaussian_noise_ref lib frame noise_level s =
     (let (noise, s1) = new_array (zeros_like (array_at s frame)) s;
          (filled, cg) = cv2_randn lib (array_at s1 noise) noise_level (cv_random s1);
          s2 = put_array noise filled (s1\<lparr>cv_random := cg\<rparr>)
      in case cv2_add (array_at s2 frame) (array_at s2 noise) of
           Inl e \<Rightarrow> Inl e
         | Inr noisy_frame \<Rightarrow> Inr (new_array noisy_frame s2))"

definition compression_artifacts_ref :: "library \<Rightarrow> nat \<Rightarrow> int \<Rightarrow> world \<Rightarrow> error + (nat \<times> world)" where
  "compression_artifacts_ref lib frame compression_quality s =
     Inr (new_array (compression_artifacts lib (array_at s frame) compression_quality) s)"

definition motion_blur_ref :: "nat \<Rightarrow> int \<Rightarrow> world \<Rightarrow> error + (nat \<times> world)" where
  "motion_blur_ref frame kernel_size s =
     (case motion_blur (array_at s frame) kernel_size of
        Inl e \<Rightarrow> Inl e
      | Inr blurred_frame \<Rightarrow> Inr (new_array blurred_frame s))"

definition color_banding_ref :: "promotion \<Rightarrow> nat \<Rightarrow> nat \<Rightarrow> world \<Rightarrow> error + (nat \<times> world)" where
  "color_banding_ref pr frame levels s =
     (case color_banding pr (array_at s frame) levels of
        Inl e \<Rightarrow> Inl e
      | Inr quantized_frame \<Rightarrow> Inr (new_array quantized_frame s))"

definition salt_and_pepper_noise_ref :: "nat \<Rightarrow> rat \<Rightarrow> world \<Rightarrow> error + (nat \<times> world)" where
  "salt_and_pepper_noise_ref frame amount s =
     (let (noisy_frame, s1) = new_array (array_at s frame) s in
      case sample_coords (array_at s1 frame) (num_salt (array_at s1 frame) amount) (np_random s1) of
        Inl e \<Rightarrow> Inl e
      | Inr ((rows, cols, _), g1) \<Rightarrow>
     (case assign_pixels (array_at s1 noisy_frame) rows cols 255 of
        Inl e \<Rightarrow> Inl e
      | Inr salted \<Rightarrow>
     (let s2 = put_array noisy_frame salted (s1\<lparr>np_random := g1\<rparr>) in
      case sample_coords (array_at s2 frame) (num_pepper (array_at s2 frame) amount) (np_random s2) of
        Inl e \<Rightarrow> Inl e
      | Inr ((rows', cols', _), g2) \<Rightarrow>
     (case assign_pixels (array_at s2 noisy_frame) rows' cols' 0 of
        Inl e \<Rightarrow> Inl e
      | Inr peppered \<Rightarrow>
          Inr (noisy_frame, put_array noisy_frame peppered (s2\<lparr>np_random := g2\<rparr>))))))"

definition lens_distortion_ref :: "library \<Rightarrow> nat \<Rightarrow> rat \<Rightarrow> rat \<Rightarrow> world \<Rightarrow> error + (nat \<times> world)" where
  "lens_distortion_ref lib frame k1 k2 s =
     Inr (new_array (lens_distortion lib (array_at s frame) k1 k2) s)"

fun vignette_loop_ref :: "nat \<Rightarrow> rat list list \<Rightarrow> nat list \<Rightarrow> nat \<Rightarrow> world \<Rightarrow> error + world" where
  "vignette_loop_ref frame msk [] vignette_frame s = Inr s"
| "vignette_loop_ref frame msk (i # js) vignette_frame s =
     (if depth (array_at s frame) \<le> i then Inl IndexError
      else if map length (array_at s frame) \<noteq> map length msk then Inl ValueError
      else vignette_loop_ref frame msk js vignette_frame
             (put_array vignette_frame
                (set_channel i
                   (map2 (map2 (\<lambda>px m. truncate_u8 (of_nat (unat (px ! i)) * m)))
                      (array_at s frame) msk)
                   (array_at s vignette_frame)) s))"

definition vignetting_ref :: "library \<Rightarrow> nat \<Rightarrow> world \<Rightarrow> error + (nat \<times> world)" where
  "vignetting_ref lib frame s =
     (let h = height (array_at s frame); w = width (array_at s frame);
          X_resultant_kernel = gaussian_kernel lib w (of_nat w / 2);
          Y_resultant_kernel = gaussian_kernel lib h (of_nat h / 2);
          kern = outer_product Y_resultant_kernel X_resultant_kernel
      in case concat kern of
           [] \<Rightarrow> Inl ValueError
         | x # xs \<Rightarrow>
             (let msk = map (map (\<lambda>v. v / fold max xs x)) kern;
                  (vignette_frame, s1) = new_array (zeros_like (array_at s frame)) s
              in case vignette_loop_ref frame msk [0..<3] vignette_frame s1 of
                   Inl e \<Rightarrow> Inl e
                 | Inr s2 \<Rightarrow> Inr (vignette_frame, s2)))"

definition chromatic_aberration_ref :: "nat \<Rightarrow> int \<Rightarrow> world \<Rightarrow> error + (nat \<times> world)" where
  "chromatic_aberration_ref frame shift s =
     (case chromatic_aberration (array_at s frame) shift of
        Inl e \<Rightarrow> Inl e
      | Inr aberrated_frame \<Rightarrow> Inr (new_array aberrated_frame s))"

fun dust_loop_ref :: "library \<Rightarrow> nat \<Rightarrow> nat \<Rightarrow> nat \<Rightarrow> nat \<Rightarrow> world \<Rightarrow> error + world" where
  "dust_loop_ref lib h w 0 dusty_frame s = Inr s"
| "dust_loop_ref lib h w (Suc n) dusty_frame s =
     (case randint1 0 (int w) (np_random s) of
        Inl e \<Rightarrow> Inl e
      | Inr (x, g1) \<Rightarrow>
     (case randint1 0 (int h) g1 of
        Inl e \<Rightarrow> Inl e
      | Inr (y, g2) \<Rightarrow>
     (case randint1 5 15 g2 of
        Inl e \<Rightarrow> Inl e
      | Inr (radius, g3) \<Rightarrow>
     (case randint1 50 100 g3 of
        Inl e \<Rightarrow> Inl e
      | Inr (color, g4) \<Rightarrow>
          dust_loop_ref lib h w n dusty_frame
            (put_array dusty_frame
               (cv2_circle lib (array_at s dusty_frame) (x, y) radius color)
               (s\<lparr>np_random := g4\<rparr>))))))"

definition dust_dirt_particles_ref :: "library \<Rightarrow> nat \<Rightarrow> int \<Rightarrow> world \<Rightarrow> error + (nat \<times> world)" where
  "dust_dirt_particles_ref lib frame num_particles s =
     (let (dusty_frame, s1) = new_array (array_at s frame) s;
          h = height (array_at s1 frame); w = width (array_at s1 frame)
      in case dust_loop_ref lib h w (nat num_particles) dusty_frame s1 of
           Inl e \<Rightarrow> Inl e
         | Inr s2 \<Rightarrow> Inr (dusty_frame, s2))"

section \<open>The pipeline\<close>

text \<open>
  A video file that opens has the properties that \<open>cap.get\<close> reports and the frames that
  \<open>cap.read\<close> returns one by one; the file system maps a path to such a file or to
  nothing. A writer is known by the name of its file: creating it creates the file,
  empty, and \<open>write\<close> appends a frame to it. A sink records the frames handed to the
  writer, not what an encoder makes of them.
\<close>

record video =
  frame_width :: int
  frame_height :: int
  fps :: rat
  frame_count :: int
  decoded :: "frame list"

record params =
  noise_level :: rat
  compression_quality :: int
  kernel_size :: int
  color_branding_levels :: nat
  salt_and_pepper_amount :: rat
  lens_k1 :: rat
  lens_k2 :: rat
  chromatic_aberration_shift :: int
  dust_particles :: int
  drop_rate :: rat

definition default_params :: params where
  "default_params =
     \<lparr>noise_level = 80, compression_quality = 1, kernel_size = 15,
      color_branding_levels = 8, salt_and_pepper_amount = 1 / 100,
      lens_k1 = - (1 / 2), lens_k2 = 0, chromatic_aberration_shift = 2,
      dust_particles = 10, drop_rate = 1 / 10\<rparr>"

definition VideoWriter :: "string \<Rightarrow> rat \<Rightarrow> int \<times> int \<Rightarrow> string \<Rightarrow> world \<Rightarrow> world" where
  "VideoWriter fourcc rate sz name s =
     s\<lparr>videos := (videos s)(name \<mapsto>
        \<lparr>sink_fourcc = fourcc, sink_fps = rate, sink_size = sz, written = []\<rparr>)\<rparr>"

definition write_frame :: "string \<Rightarrow> frame \<Rightarrow> world \<Rightarrow> world" where
  "write_frame out a s =
     (case videos s out of
        None \<Rightarrow> s
      | Some k \<Rightarrow> s\<lparr>videos := (videos s)(out \<mapsto> k\<lparr>written := written k @ [a]\<rparr>)\<rparr>)"

definition imwrite :: "string \<Rightarrow> frame \<Rightarrow> world \<Rightarrow> world" where
  "imwrite name a s = s\<lparr>images := (images s)(name \<mapsto> a)\<rparr>"

definition print :: "string \<Rightarrow> world \<Rightarrow> world" where
  "print line s = s\<lparr>console := console s @ [line]\<rparr>"

text \<open>Decimal digits, for the numbers in the progress lines.\<close>

fun show_nat :: "nat \<Rightarrow> string" where
  "show_nat n =
     (if n < 10 then [char_of (48 + n)]
      else show_nat (n div 10) @ [char_of (48 + n mod 10)])"

definition show_int :: "int \<Rightarrow> string" where
  "show_int i = (if i < 0 then CHR ''-'' # show_nat (nat (- i)) else show_nat (nat i))"

text \<open>
  \<open>np.random.rand() > drop_rate\<close> decides whether the frame is written.
\<close>

definition simulate_frame_dropping :: "nat \<Rightarrow> string \<Rightarrow> rat \<Rightarrow> world \<Rightarrow> world" where
  "simulate_frame_dropping frame out rate s =
     (let (u, g) = rand (np_random s);
          s1 = s\<lparr>np_random := g\<rparr>
      in if rate < u then write_frame out (array_at s1 frame) s1 else s1)"

text \<open>
  The body of the loop has nine blocks of the same three lines: apply a transform to the
  frame, write the result to the transform's video, and save it as a still image unless
  the images have been saved. The model lists the nine in the order of the script and
  runs through the list; an exception ends the run with the files as they are.
\<close>

type_synonym transform = "nat \<Rightarrow> world \<Rightarrow> error + (nat \<times> world)"

definition stages :: "library \<Rightarrow> params \<Rightarrow> (transform \<times> string \<times> string) list" where
  "stages lib P =
     [(\<lambda>frame. gaussian_noise_ref lib frame (noise_level P),
         ''gaussian_noise.mp4'', ''gaussian_noise.png''),
      (\<lambda>frame. compression_artifacts_ref lib frame (compression_quality P),
         ''compression.mp4'', ''compression.png''),
      (\<lambda>frame. motion_blur_ref frame (kernel_size P),
         ''motion_blur.mp4'', ''motion_blur.png''),
      (\<lambda>frame. color_banding_ref (np_promotion lib) frame (color_branding_levels P),
         ''color_banding.mp4'', ''color_banding.png''),
      (\<lambda>frame. salt_and_pepper_noise_ref frame (salt_and_pepper_amount P),
         ''salt_pepper_noise.mp4'', ''salt_pepper_noise.png''),
      (\<lambda>frame. lens_distortion_ref lib frame (lens_k1 P) (lens_k2 P),
         ''lens_distortion.mp4'', ''lens_distortion.png''),
      (\<lambda>frame. vignetting_ref lib frame,
         ''vignetting.mp4'', ''vignetting.png''),
      (\<lambda>frame. chromatic_aberration_ref frame (chromatic_aberration_shift P),
         ''chromatic_aberration.mp4'', ''chromatic_aberration.png''),
      (\<lambda>frame. dust_dirt_particles_ref lib frame (dust_particles P),
         ''dust_particles.mp4'', ''dust_particles.png'')]"

definition run_stage :: "transform \<times> string \<times> string \<Rightarrow> bool \<Rightarrow> nat \<Rightarrow> world \<Rightarrow> error option \<times> world" where
  "run_stage stage saved_images frame s =
     (case stage of (f, out, png) \<Rightarrow>
        (case f frame s of
           Inl e \<Rightarrow> (Some e, s)
         | Inr (result, s1) \<Rightarrow>
             (let s2 = write_frame out (array_at s1 result) s1;
                  s3 = (if \<not> saved_images then imwrite png (array_at s2 result) s2 else s2)
              in (None, s3))))"

fun run_stages :: "(transform \<times> string \<times> string) list \<Rightarrow> bool \<Rightarrow> nat \<Rightarrow> world \<Rightarrow> error option \<times> world" where
  "run_stages [] saved_images frame s = (None, s)"
| "run_stages (stage # rest) saved_images frame s =
     (case run_stage stage saved_images frame s of
        (Some e, s1) \<Rightarrow> (Some e, s1)
      | (None, s1) \<Rightarrow> run_stages rest saved_images frame s1)"

text \<open>
  One round of the loop, for the frame that \<open>cap.read\<close> has returned as a new array:
  the nine blocks, the frame dropping, the frame counter and the progress line.
\<close>

definition process_frame :: "library \<Rightarrow> params \<Rightarrow> int \<Rightarrow> nat \<Rightarrow> bool \<Rightarrow> frame \<Rightarrow> world \<Rightarrow> error option \<times> world" where
  "process_frame lib P announced frame_number saved_images a s =
     (let (frame, s0) = new_array a s in
      case run_stages (stages lib P) saved_images frame s0 of
        (Some e, s1) \<Rightarrow> (Some e, s1)
      | (None, s1) \<Rightarrow>
          (let s2 = simulate_frame_dropping frame ''frame_dropping.mp4'' (drop_rate P) s1;
               frame_number' = frame_number + 1
           in (None,
               if frame_number' mod 10 = 0
               then print (''Processed '' @ show_nat frame_number' @ ''/'' @ show_int announced @ '' frames'') s2
               else s2)))"

fun frame_loop :: "library \<Rightarrow> params \<Rightarrow> int \<Rightarrow> frame list \<Rightarrow> nat \<Rightarrow> bool \<Rightarrow> world \<Rightarrow> error option \<times> world" where
  "frame_loop lib P announced [] frame_number saved_images s = (None, s)"
| "frame_loop lib P announced (a # rest) frame_number saved_images s =
     (case process_frame lib P announced frame_number saved_images a s of
        (Some e, s1) \<Rightarrow> (Some e, s1)
      | (None, s1) \<Rightarrow> frame_loop lib P announced rest (frame_number + 1) True s1)"

definition sink_names :: "string list" where
  "sink_names =
     [''gaussian_noise.mp4'', ''compression.mp4'', ''motion_blur.mp4'', ''color_banding.mp4'',
      ''salt_pepper_noise.mp4'', ''lens_distortion.mp4'', ''vignetting.mp4'',
      ''chromatic_aberration.mp4'', ''dust_particles.mp4'', ''frame_dropping.mp4'']"

definition add_artifacts :: "library \<Rightarrow> (string \<rightharpoonup> video) \<Rightarrow> string \<Rightarrow> params \<Rightarrow> world \<Rightarrow> error option \<times> world" where
  "add_artifacts lib fs input_video_path P s =
     (case fs input_video_path of
        None \<Rightarrow> (None, print (''Error opening video file: '' @ input_video_path) s)
      | Some cap \<Rightarrow>
          (let s1 = fold (VideoWriter ''mp4v'' (fps cap) (frame_width cap, frame_height cap)) sink_names s;
               s2 = print (''Processing '' @ show_int (frame_count cap) @ '' frames to add artifacts...'') s1
           in case frame_loop lib P (frame_count cap) (decoded cap) 0 False s2 of
                (Some e, s3) \<Rightarrow> (Some e, s3)
              | (None, s3) \<Rightarrow> (None, print ''Artifact addition complete'' s3)))"

section \<open>Vocabulary of the statements\<close>

text \<open>
  One generator state is drawn from another when it is that stream advanced by some
  number of draws. A call only allocates when every array that existed keeps its
  contents and the console and the files are as before; its result is new when, in
  addition, the array returned did not exist before the call.
\<close>

definition draws_from :: "rng \<Rightarrow> rng \<Rightarrow> bool" where
  "draws_from g g' \<longleftrightarrow> (\<exists>n. g' = advance n g)"

definition only_allocates :: "world \<Rightarrow> world \<Rightarrow> bool" where
  "only_allocates s s' \<longleftrightarrow>
     length (heap s) \<le> length (heap s') \<and>
     (\<forall>p<length (heap s). array_at s' p = array_at s p) \<and>
     console s' = console s \<and> videos s' = videos s \<and> images s' = images s"

definition new_result :: "world \<Rightarrow> nat \<Rightarrow> world \<Rightarrow> bool" where
  "new_result s r s' \<longleftrightarrow> only_allocates s s' \<and> length (heap s) \<le> r \<and> r < length (heap s')"

text \<open>
  An instance of the library parameters, for examples: the codec and the undistortion
  return the frame they are given, the sampler stores the raw draw, the Gaussian kernel
  is flat, and the circle covers the disc around its centre.
\<close>

definition plain_library :: library where
  "plain_library =
     \<lparr>np_promotion = ValueBased,
      randn_sample = (\<lambda>sigma raw. of_nat raw),
      jpeg_roundtrip = (\<lambda>q a. a),
      optimal_new_camera_matrix = (\<lambda>K D sz alpha. K),
      undistort = (\<lambda>a K D K'. a),
      gaussian_kernel = (\<lambda>n sigma. replicate n 1),
      circle_covers = (\<lambda>centre radius p.
         (int (fst p) - int (fst centre))\<^sup>2 + (int (snd p) - int (snd centre))\<^sup>2 \<le> (int radius)\<^sup>2)\<rparr>"

section \<open>Well-formed frames\<close>

lemma frame_ok_row: "frame_ok F \<Longrightarrow> r < length F \<Longrightarrow> length (F ! r) = width F"
  by (simp add: frame_ok_def)

lemma frame_ok_px:
  assumes "frame_ok F" "r < length F" "c < width F"
  shows "length (F ! r ! c) = 3"
proof -
  have "F ! r \<in> set F" using assms(2) by simp
  moreover have "F ! r ! c \<in> set (F ! r)" using assms by (simp add: frame_ok_row)
  ultimately show ?thesis using assms(1) unfolding frame_ok_def by blast
qed

lemma frame_ok_depth: "frame_ok F \<Longrightarrow> depth F = 3"
  by (auto simp: frame_ok_def depth_def width_def split: list.splits)


lemma frame_ok_same_lengths:
  assumes "frame_ok F" and "length G = length F"
    and "\<And>i. i < length F \<Longrightarrow> length (G ! i) = length (F ! i)"
    and "\<And>i j. i < length F \<Longrightarrow> j < length (F ! i) \<Longrightarrow> length (G ! i ! j) = length (F ! i ! j)"
  shows "frame_ok G" and "height G = height F" and "width G = width F" and "shape G = shape F"
proof -
  have F: "F \<noteq> []" "0 < width F" using assms(1) by (simp_all add: frame_ok_def)
  then have G: "G \<noteq> []" using assms(2) by auto
  show h: "height G = height F" using assms(2) by (simp add: height_def)
  have "width G = length (G ! 0)" using G by (cases G) (simp_all add: width_def)
  also have "\<dots> = length (F ! 0)" using assms(3) [of 0] F by simp
  also have "\<dots> = width F" using frame_ok_row [OF assms(1), of 0] F by simp
  finally show w: "width G = width F" .
  show ok: "frame_ok G"
    unfolding frame_ok_def
  proof (intro conjI ballI)
    show "G \<noteq> []" by (rule G)
    show "width G \<noteq> 0" using w F by simp
  next
    fix row assume "row \<in> set G"
    then obtain i where i: "i < length F" and row: "row = G ! i"
      using assms(2) by (auto simp: in_set_conv_nth)
    show len: "length row = width G"
      using w frame_ok_row [OF assms(1) i] assms(3) [OF i] row by simp
    fix px assume "px \<in> set row"
    then obtain j where j: "j < length (F ! i)" and px: "px = G ! i ! j"
      using row assms(3) [OF i] by (auto simp: in_set_conv_nth)
    then show "length px = 3"
      using assms(4) [OF i j] frame_ok_px [OF assms(1) i, of j] frame_ok_row [OF assms(1) i] by simp
  qed
  show "shape G = shape F"
    using h w frame_ok_depth [OF assms(1)] frame_ok_depth [OF ok] by (simp add: shape_def)
qed


section \<open>Verified properties: color banding\<close>

lemma unat_u8_less: "unat (v :: 8 word) < 256"
  using unsigned_less [of v, where 'a = nat] by simp

lemma dvd_256_bounds:
  assumes "(levels::nat) dvd 256"
  shows "0 < levels" and "levels \<le> 256" and "0 < 256 div levels"
proof -
  show "0 < levels" using assms by (auto intro: Nat.gr0I)
  show "levels \<le> 256" using assms by (auto dest: dvd_imp_le)
  then show "0 < 256 div levels" using \<open>0 < levels\<close> by (simp add: div_greater_zero_iff)
qed

lemma band_exact:
  assumes "0 < s"
  shows "np_multiply (np_floor_divide v s) s = unat v div s * s"
proof (cases "s \<le> 255")
  case True
  have "unat v div s * s \<le> unat v" by simp
  then have "unat v div s * s < 256" using unat_u8_less [of v] by linarith
  then show ?thesis using assms True by (simp add: np_multiply_def np_floor_divide_def)
next
  case False
  then have "unat v div s = 0" using unat_u8_less [of v] by simp
  then show ?thesis using assms by (simp add: np_multiply_def np_floor_divide_def)
qed

lemma band_unat:
  assumes "0 < s"
  shows "unat (of_nat (np_multiply (np_floor_divide v s) s) :: 8 word) = unat v div s * s"
proof -
  have "unat v div s * s \<le> unat v" by simp
  then have "unat v div s * s < 256" using unat_u8_less [of v] by linarith
  then show ?thesis by (simp add: band_exact [OF assms] unat_of_nat del: of_nat_mult)
qed

lemma floor_multiple_gap:
  assumes "0 < (s::nat)"
  shows "x < x div s * s + s"
proof -
  have "x mod s < s" using assms by simp
  moreover have "x = x div s * s + x mod s" by simp
  ultimately show ?thesis by linarith
qed

lemma step_fits:
  assumes "(levels::nat) dvd 256" and "levels \<noteq> 1"
  shows "256 div levels \<le> 255"
proof -
  have "2 \<le> levels" using dvd_256_bounds(1) [OF assms(1)] assms(2) by linarith
  then have "256 div levels \<le> 256 div 2" by (intro div_le_mono2) simp_all
  then show ?thesis by simp
qed

text \<open>
  Claim C3. For a level count that divides 256, every frame that \<open>color_banding\<close> returns
  has the nesting of its input, and each of its channel values is a multiple of
  \<open>256 div levels\<close>, is at most the input value at the same place, and is less than one
  step below it: the nearest multiple from below. The call returns a frame under either
  promotion rule, but for one level under the weak-scalar rule, where the operand 256
  is rejected.
\<close>

theorem color_banding_quantizes:
  assumes "levels dvd 256"
  shows "(\<forall>G. color_banding pr F levels = Inr G \<longrightarrow>
            map (map length) G = map (map length) F \<and>
            (\<forall>r<length F. \<forall>c<length (F ! r). \<forall>k<length (F ! r ! c).
               (256 div levels) dvd unat (G ! r ! c ! k) \<and>
               unat (G ! r ! c ! k) \<le> unat (F ! r ! c ! k) \<and>
               unat (F ! r ! c ! k) < unat (G ! r ! c ! k) + 256 div levels)) \<and>
         (pr = ValueBased \<or> levels \<noteq> 1 \<longrightarrow> (\<exists>G. color_banding pr F levels = Inr G))"
proof (intro conjI allI impI)
  note b = dvd_256_bounds [OF assms]
  {
    fix G assume G: "color_banding pr F levels = Inr G"
    then have G_def: "G = map (map (map (\<lambda>v.
        of_nat (np_multiply (np_floor_divide v (256 div levels)) (256 div levels))))) F"
      using b by (auto simp: color_banding_def split: if_splits)
    show "map (map length) G = map (map length) F"
      by (simp add: G_def comp_def)
    fix r c k assume "r < length F" "c < length (F ! r)" "k < length (F ! r ! c)"
    then have v: "unat (G ! r ! c ! k) = unat (F ! r ! c ! k) div (256 div levels) * (256 div levels)"
      using b by (simp add: G_def band_unat)
    show "(256 div levels) dvd unat (G ! r ! c ! k)" by (simp add: v)
    show "unat (G ! r ! c ! k) \<le> unat (F ! r ! c ! k)" by (simp add: v)
    show "unat (F ! r ! c ! k) < unat (G ! r ! c ! k) + 256 div levels"
      unfolding v using b(3) by (rule floor_multiple_gap)
  }
  assume "pr = ValueBased \<or> levels \<noteq> 1"
  then show "\<exists>G. color_banding pr F levels = Inr G"
    using b step_fits [OF assms] by (auto simp: color_banding_def)
qed

theorem color_banding_quantizes_witness:
  "(8::nat) dvd 256 \<and> color_banding WeakScalar [[[200, 13, 255]]] 8 = Inr [[[192, 0, 224]]] \<and>
   (32::nat) dvd unat (192 :: 8 word) \<and> unat (192 :: 8 word) \<le> unat (200 :: 8 word) \<and>
   unat (200 :: 8 word) < unat (192 :: 8 word) + 32"
  using color_banding_quantizes [of 8 WeakScalar "[[[200, 13, 255]]]"]
  by (simp add: color_banding_def np_multiply_def np_floor_divide_def)

section \<open>Verified properties: chromatic aberration\<close>

lemma np_roll_length [simp]: "length (np_roll xs s) = length xs"
  by (simp add: np_roll_def Let_def)

lemma np_roll_rotate:
  "np_roll xs s = rotate (length xs - nat (s mod int (length xs))) xs"
proof (cases "xs = []")
  case True then show ?thesis by (simp add: np_roll_def)
next
  case False
  let ?n = "length xs" let ?k = "nat (s mod int ?n)"
  have "?k < ?n" using False by (simp add: nat_less_iff)
  show ?thesis
  proof (cases "?k = 0")
    case True then show ?thesis using False by (simp add: np_roll_def Let_def)
  next
    case k: False
    then have "(?n - ?k) mod ?n = ?n - ?k" using \<open>?k < ?n\<close> by simp
    then show ?thesis using False by (simp add: np_roll_def Let_def rotate_drop_take)
  qed
qed

lemma np_roll_nth:
  assumes "c < length xs"
  shows "np_roll xs s ! c = xs ! nat ((int c - s) mod int (length xs))"
proof -
  let ?n = "length xs" let ?k = "nat (s mod int ?n)"
  have n: "0 < ?n" using assms by auto
  have k: "?k < ?n" using n by (simp add: nat_less_iff)
  have m: "0 \<le> s mod int ?n" "s mod int ?n < int ?n" using n by simp_all
  define d where "d = ?n - ?k"
  have d: "int d = int ?n - s mod int ?n" unfolding d_def using k m by simp
  have "int ((c + d) mod ?n) = (int c + int d) mod int ?n"
    by (simp only: zmod_int of_nat_add)
  also have "\<dots> = (int c + (int ?n - s mod int ?n)) mod int ?n"
    by (simp only: d)
  also have "int c + (int ?n - s mod int ?n) = (int c - s mod int ?n) + int ?n" by simp
  also have "((int c - s mod int ?n) + int ?n) mod int ?n = (int c - s mod int ?n) mod int ?n"
    by (rule mod_add_self2)
  also have "\<dots> = (int c - s) mod int ?n" by (rule mod_diff_right_eq)
  finally have "(c + d) mod ?n = nat ((int c - s) mod int ?n)" by linarith
  then show ?thesis using assms unfolding d_def by (simp add: np_roll_rotate nth_rotate add.commute)
qed

lemma upt_3: "[0..<3] = [0, 1, 2]"
  by (simp add: upt_rec)

lemma cv2_split_ok:
  assumes "frame_ok F"
  shows "cv2_split F = [map (map (\<lambda>px. px ! 0)) F, map (map (\<lambda>px. px ! 1)) F, map (map (\<lambda>px. px ! 2)) F]"
  by (simp add: cv2_split_def frame_ok_depth [OF assms] upt_3)

lemma map_length_nth:
  assumes "map length g = map length b" and "i < length b"
  shows "length (g ! i) = length (b ! i)"
proof -
  have "length g = length b" using assms(1) by (metis length_map)
  then have "map length g ! i = length (g ! i)" using assms(2) by simp
  then show ?thesis using assms by simp
qed

lemma cv2_merge_3:
  assumes "map length g = map length b" and "map length r = map length b"
  shows "cv2_merge [b, g, r] =
           Inr (map (\<lambda>i. map (\<lambda>c. [b ! i ! c, g ! i ! c, r ! i ! c]) [0..<length (b ! i)]) [0..<length b])"
  using assms by (simp add: cv2_merge_def)

lemma list3_nth: "length xs = 3 \<Longrightarrow> [xs ! 0, xs ! 1, xs ! 2] = xs"
  by (auto simp: numeral_3_eq_3 length_Suc_conv)

lemma chromatic_aberration_ok:
  assumes "frame_ok F"
  shows "chromatic_aberration F s = Inr (map (\<lambda>i. map (\<lambda>c.
       [np_roll (map (\<lambda>px. px ! 0) (F ! i)) s ! c, F ! i ! c ! 1,
        np_roll (map (\<lambda>px. px ! 2) (F ! i)) (- s) ! c]) [0..<length (F ! i)]) [0..<length F])"
proof -
  let ?b = "np_roll_axis1 (map (map (\<lambda>px. px ! 0)) F) s"
  let ?g = "map (map (\<lambda>px. px ! 1)) F"
  let ?r = "np_roll_axis1 (map (map (\<lambda>px. px ! 2)) F) (- s)"
  have "map length ?g = map length ?b" "map length ?r = map length ?b"
    by (simp_all add: np_roll_axis1_def comp_def)
  from cv2_merge_3 [OF this]
  have "cv2_merge [?b, ?g, ?r] = Inr (map (\<lambda>i. map (\<lambda>c.
       [np_roll (map (\<lambda>px. px ! 0) (F ! i)) s ! c, F ! i ! c ! 1,
        np_roll (map (\<lambda>px. px ! 2) (F ! i)) (- s) ! c]) [0..<length (F ! i)]) [0..<length F])"
    by (simp add: np_roll_axis1_def cong: map_cong)
  then show ?thesis by (simp add: chromatic_aberration_def cv2_split_ok [OF assms] Let_def)
qed

lemma chromatic_aberration_nth:
  assumes "frame_ok F" and "chromatic_aberration F s = Inr G" and "i < height F" and "c < width F"
  shows "G ! i ! c = [F ! i ! nat ((int c - s) mod int (width F)) ! 0, F ! i ! c ! 1,
                      F ! i ! nat ((int c + s) mod int (width F)) ! 2]"
proof -
  have i: "i < length F" using assms(3) by (simp add: height_def)
  have w: "length (F ! i) = width F" by (rule frame_ok_row [OF assms(1) i])
  have pos: "0 < int (width F)" using assms(4) by auto
  have "nat ((int c - s) mod int (width F)) < width F" "nat ((int c + s) mod int (width F)) < width F"
    using pos by (simp_all add: nat_less_iff)
  then show ?thesis
    using assms(2) i w assms(4) unfolding chromatic_aberration_ok [OF assms(1)]
    by (auto simp: np_roll_nth)
qed

lemma chromatic_aberration_frame_ok:
  assumes "frame_ok F" and "chromatic_aberration F s = Inr G"
  shows "frame_ok G" and "height G = height F" and "width G = width F"
proof -
  have G: "G = map (\<lambda>i. map (\<lambda>c.
       [np_roll (map (\<lambda>px. px ! 0) (F ! i)) s ! c, F ! i ! c ! 1,
        np_roll (map (\<lambda>px. px ! 2) (F ! i)) (- s) ! c]) [0..<length (F ! i)]) [0..<length F]"
    using assms(2) unfolding chromatic_aberration_ok [OF assms(1)] by simp
  show h: "height G = height F" by (simp add: G height_def)
  have F: "F \<noteq> []" "0 < width F" using assms(1) by (simp_all add: frame_ok_def)
  then have "[0..<length F] = 0 # [1..<length F]" by (simp add: upt_rec)
  then have "width G = length (F ! 0)" by (simp add: G width_def)
  then show w: "width G = width F" using frame_ok_row [OF assms(1), of 0] F by simp
  show "frame_ok G"
    unfolding frame_ok_def
  proof (intro conjI ballI)
    show "G \<noteq> []" using F by (simp add: G)
    show "width G \<noteq> 0" using w F by simp
  next
    fix row assume "row \<in> set G"
    then obtain i where i: "i < length F" and row: "row = G ! i"
      by (auto simp: G in_set_conv_nth)
    then show "length row = width G" using w frame_ok_row [OF assms(1) i] by (simp add: G)
    fix px assume "px \<in> set row"
    then show "length px = 3" using row i by (auto simp: G)
  qed
qed

lemma frame_eqI:
  assumes "length G = length F"
    and "\<And>i. i < length F \<Longrightarrow> length (G ! i) = length (F ! i)"
    and "\<And>i c. i < length F \<Longrightarrow> c < length (F ! i) \<Longrightarrow> G ! i ! c = F ! i ! c"
  shows "G = F"
  using assms by (auto intro!: nth_equalityI)

lemma shift_back:
  assumes "c < (w::nat)"
  shows "nat ((int (nat ((int c + s) mod int w)) - s) mod int w) = c"
    and "nat ((int (nat ((int c - s) mod int w)) + s) mod int w) = c"
proof -
  have pos: "0 < int w" using assms by auto
  then have a: "int (nat ((int c + s) mod int w)) = (int c + s) mod int w"
    and b: "int (nat ((int c - s) mod int w)) = (int c - s) mod int w" by simp_all
  have "((int c + s) mod int w - s) mod int w = int c mod int w"
    by (simp add: mod_diff_left_eq)
  then show "nat ((int (nat ((int c + s) mod int w)) - s) mod int w) = c"
    using assms by (simp add: a)
  have "((int c - s) mod int w + s) mod int w = int c mod int w"
    by (simp add: mod_add_left_eq)
  then show "nat ((int (nat ((int c - s) mod int w)) + s) mod int w) = c"
    using assms by (simp add: b)
qed

text \<open>
  Claim C5. On every frame, \<open>chromatic_aberration\<close> returns a frame of the same shape
  whose first channel at column \<open>c\<close> is the input's first channel at column \<open>c - shift\<close>,
  whose third channel at column \<open>c\<close> is the input's third channel at column \<open>c + shift\<close>,
  both columns taken modulo the width, and whose middle channel is the input's: the first
  plane is rotated by \<open>shift\<close> columns, the third by \<open>- shift\<close>, and the three planes are
  put together again.
\<close>

theorem chromatic_aberration_planes:
  assumes "frame_ok F"
  shows "\<exists>G. chromatic_aberration F shift = Inr G \<and> frame_ok G \<and> shape G = shape F \<and>
           (\<forall>r<height F. \<forall>c<width F.
              G ! r ! c ! 0 = F ! r ! nat ((int c - shift) mod int (width F)) ! 0 \<and>
              G ! r ! c ! 1 = F ! r ! c ! 1 \<and>
              G ! r ! c ! 2 = F ! r ! nat ((int c + shift) mod int (width F)) ! 2)"
proof -
  obtain G where G: "chromatic_aberration F shift = Inr G"
    using chromatic_aberration_ok [OF assms] by blast
  note ok = chromatic_aberration_frame_ok [OF assms G]
  have "shape G = shape F"
    using ok frame_ok_depth assms by (simp add: shape_def)
  moreover have "\<forall>r<height F. \<forall>c<width F.
              G ! r ! c ! 0 = F ! r ! nat ((int c - shift) mod int (width F)) ! 0 \<and>
              G ! r ! c ! 1 = F ! r ! c ! 1 \<and>
              G ! r ! c ! 2 = F ! r ! nat ((int c + shift) mod int (width F)) ! 2"
    by (simp add: chromatic_aberration_nth [OF assms G])
  ultimately show ?thesis using G ok(1) by blast
qed

theorem chromatic_aberration_planes_witness:
  "frame_ok [[[1, 2, 3], [4, 5, 6], [7, 8, 9]]] \<and>
   (\<exists>G. chromatic_aberration [[[1, 2, 3], [4, 5, 6], [7, 8, 9]]] 1 = Inr G \<and>
        G = [[[7, 2, 6], [1, 5, 9], [4, 8, 3]]] \<and> frame_ok G \<and>
        shape G = shape [[[1, 2, 3], [4, 5, 6], [7, 8, 9]]])"
proof -
  have h: "frame_ok [[[1, 2, 3], [4, 5, 6], [7, 8, 9]]]"
    by code_simp
  have e: "chromatic_aberration [[[1, 2, 3], [4, 5, 6], [7, 8, 9]]] 1 = Inr [[[7, 2, 6], [1, 5, 9], [4, 8, 3]]]"
    by code_simp
  from chromatic_aberration_planes [OF h, of 1] h e show ?thesis by auto
qed

text \<open>
  Claim C6. Applying \<open>chromatic_aberration\<close> with a shift and then with the opposite shift
  gives back the frame: every plane is at its original column alignment again.
\<close>

theorem chromatic_aberration_inverse:
  assumes "frame_ok F"
  shows "\<exists>G. chromatic_aberration F shift = Inr G \<and> chromatic_aberration G (- shift) = Inr F"
proof -
  obtain G where G: "chromatic_aberration F shift = Inr G"
    using chromatic_aberration_ok [OF assms] by blast
  note okG = chromatic_aberration_frame_ok [OF assms G]
  obtain H where H: "chromatic_aberration G (- shift) = Inr H"
    using chromatic_aberration_ok [OF okG(1)] by blast
  note okH = chromatic_aberration_frame_ok [OF okG(1) H]
  have "H = F"
  proof (rule frame_eqI)
    show "length H = length F" using okH(2) okG(2) by (simp add: height_def)
  next
    fix i assume i: "i < length F"
    then have "i < length H" using okH(2) okG(2) by (simp add: height_def)
    then show "length (H ! i) = length (F ! i)"
      using frame_ok_row [OF okH(1)] frame_ok_row [OF assms i] okH(3) okG(3) by simp
  next
    fix i c assume i: "i < length F" and "c < length (F ! i)"
    then have c: "c < width F" using frame_ok_row [OF assms i] by simp
    let ?w = "int (width F)"
    have pos: "0 < ?w" using c by auto
    let ?p = "nat ((int c + shift) mod ?w)" and ?m = "nat ((int c - shift) mod ?w)"
    have pm: "?p < width F" "?m < width F" using pos by (simp_all add: nat_less_iff)
    have iG: "i < height G" "i < height F" using i okG(2) by (simp_all add: height_def)
    have "H ! i ! c = [G ! i ! ?p ! 0, G ! i ! c ! 1, G ! i ! ?m ! 2]"
      using chromatic_aberration_nth [OF okG(1) H iG(1), of c] c okG(3) by simp
    also have "G ! i ! ?p ! 0 = F ! i ! c ! 0"
      using chromatic_aberration_nth [OF assms G iG(2) pm(1)] shift_back(1) [OF c] by simp
    also have "G ! i ! c ! 1 = F ! i ! c ! 1"
      using chromatic_aberration_nth [OF assms G iG(2) c] by simp
    also have "G ! i ! ?m ! 2 = F ! i ! c ! 2"
      using chromatic_aberration_nth [OF assms G iG(2) pm(2)] shift_back(2) [OF c] by simp
    also have "[F ! i ! c ! 0, F ! i ! c ! 1, F ! i ! c ! 2] = F ! i ! c"
      using frame_ok_px [OF assms i c] by (rule list3_nth)
    finally show "H ! i ! c = F ! i ! c" .
  qed
  then show ?thesis using G H by blast
qed

theorem chromatic_aberration_inverse_witness:
  "frame_ok [[[1, 2, 3], [4, 5, 6], [7, 8, 9]]] \<and>
   chromatic_aberration [[[1, 2, 3], [4, 5, 6], [7, 8, 9]]] 1 = Inr [[[7, 2, 6], [1, 5, 9], [4, 8, 3]]] \<and>
   chromatic_aberration [[[7, 2, 6], [1, 5, 9], [4, 8, 3]]] (- 1) = Inr [[[1, 2, 3], [4, 5, 6], [7, 8, 9]]]"
proof -
  have h: "frame_ok [[[1, 2, 3], [4, 5, 6], [7, 8, 9]]]"
    by code_simp
  have e: "chromatic_aberration [[[1, 2, 3], [4, 5, 6], [7, 8, 9]]] 1 = Inr [[[7, 2, 6], [1, 5, 9], [4, 8, 3]]]"
    by code_simp
  from chromatic_aberration_inverse [OF h, of 1] h e show ?thesis by auto
qed


section \<open>Verified properties: motion blur\<close>

lemma line_kernel_1: "line_kernel 1 = Inr [[1]]"
  by (simp add: line_kernel_def)

lemma border_reflect_101_inside:
  assumes "y < len"
  shows "border_reflect_101 (int y) len = y"
proof (cases "len = 1")
  case True then show ?thesis using assms by (simp add: border_reflect_101_def)
next
  case False
  then have "2 \<le> len" using assms by linarith
  then have "2 \<le> int len" by simp
  moreover have "int y < int len" using assms by simp
  ultimately have "int y < 2 * (int len - 1)" by arith
  then have "int y mod (2 * (int len - 1)) = int y" by simp
  then show ?thesis using assms False by (simp add: border_reflect_101_def Let_def)
qed

lemma cv_round_int: "cv_round (of_int i) = i"
  by (simp add: cv_round_def)

lemma saturate_u8_uint: "saturate_u8 (uint v) = v"
proof -
  have "uint v < 256" using unsigned_less [of v, where 'a = int] by simp
  then show ?thesis by (simp add: saturate_u8_def)
qed

lemma filter2D_unit_px:
  assumes "y < h" and "x < w"
  shows "saturate_u8 (cv_round (\<Sum>i\<leftarrow>[0..<1]. \<Sum>j\<leftarrow>[0..<1].
             [[1::rat]] ! i ! j *
             of_nat (unat (F ! border_reflect_101 (int y + int i - int 0) h
                               ! border_reflect_101 (int x + int j - int 0) w ! ch)))) = F ! y ! x ! ch"
proof -
  have "cv_round (of_nat (unat (F ! y ! x ! ch))) = uint (F ! y ! x ! ch)"
    using cv_round_int [of "uint (F ! y ! x ! ch)"] by simp
  then show ?thesis
    using assms by (simp add: border_reflect_101_inside saturate_u8_uint)
qed

text \<open>
  Claim C7. With kernel size 1 the kernel is the single weight 1, and \<open>motion_blur\<close>
  returns the frame it was given.
\<close>

theorem motion_blur_identity:
  assumes "frame_ok F"
  shows "motion_blur F 1 = Inr F"
proof -
  have "cv2_filter2D F [[1]] = F"
  proof (rule frame_eqI)
    show "length (cv2_filter2D F [[1]]) = length F"
      by (simp add: cv2_filter2D_def height_def Let_def)
  next
    fix i assume i: "i < length F"
    then show "length (cv2_filter2D F [[1]] ! i) = length (F ! i)"
      using frame_ok_row [OF assms i] by (simp add: cv2_filter2D_def height_def Let_def)
  next
    fix i c assume i: "i < length F" and "c < length (F ! i)"
    then have c: "c < width F" using frame_ok_row [OF assms i] by simp
    have "cv2_filter2D F [[1]] ! i ! c =
            map (\<lambda>ch. F ! i ! c ! ch) [0..<3]"
      using i c filter2D_unit_px [of i "length F" c "width F" F]
      by (simp add: cv2_filter2D_def height_def width_def Let_def frame_ok_depth [OF assms]
               del: upt_Suc cong: map_cong)
    also have "\<dots> = F ! i ! c"
      using list3_nth [OF frame_ok_px [OF assms i c]] by (simp add: upt_3)
    finally show "cv2_filter2D F [[1]] ! i ! c = F ! i ! c" .
  qed
  then show ?thesis by (simp add: motion_blur_def line_kernel_1)
qed

theorem motion_blur_identity_witness:
  "frame_ok [[[1, 2, 3], [4, 5, 6]], [[250, 0, 255], [10, 11, 12]]] \<and>
   motion_blur [[[1, 2, 3], [4, 5, 6]], [[250, 0, 255], [10, 11, 12]]] 1 =
     Inr [[[1, 2, 3], [4, 5, 6]], [[250, 0, 255], [10, 11, 12]]]"
proof -
  have h: "frame_ok [[[1, 2, 3], [4, 5, 6]], [[250, 0, 255], [10, 11, 12]]]"
    by code_simp
  from motion_blur_identity [OF h] h show ?thesis by simp
qed


section \<open>Verified properties: salt-and-pepper noise\<close>

lemma set_pixel_length [simp]: "length (set_pixel v rc a) = length a"
  by (simp add: set_pixel_def split: prod.splits)

lemma set_pixel_row_length [simp]: "length (set_pixel v rc a ! i) = length (a ! i)"
proof (cases rc)
  case (Pair r c)
  show ?thesis
  proof (cases "r < length a")
    case True
    then show ?thesis by (cases "i = r") (simp_all add: Pair set_pixel_def)
  next
    case False
    then show ?thesis by (simp add: Pair set_pixel_def list_update_beyond)
  qed
qed

lemma set_pixel_px:
  assumes "i < length a" and "j < length (a ! i)"
  shows "set_pixel v rc a ! i ! j = (if rc = (i, j) then map (\<lambda>_. v) (a ! i ! j) else a ! i ! j)"
proof (cases rc)
  case (Pair r c)
  show ?thesis
  proof (cases "r = i")
    case True
    then show ?thesis using assms by (cases "c = j") (simp_all add: Pair set_pixel_def)
  next
    case False
    then show ?thesis by (simp add: Pair set_pixel_def)
  qed
qed

lemma fold_set_pixel_length [simp]: "length (fold (set_pixel v) cs a) = length a"
  by (induction cs arbitrary: a) simp_all

lemma fold_set_pixel_row_length [simp]: "length (fold (set_pixel v) cs a ! i) = length (a ! i)"
  by (induction cs arbitrary: a) simp_all

lemma fold_set_pixel_px:
  assumes "i < length a" and "j < length (a ! i)"
  shows "fold (set_pixel v) cs a ! i ! j =
           (if (i, j) \<in> set cs then map (\<lambda>_. v) (a ! i ! j) else a ! i ! j)"
  using assms
proof (induction cs arbitrary: a)
  case Nil
  then show ?case by simp
next
  case (Cons rc cs)
  have "fold (set_pixel v) (rc # cs) a ! i ! j = fold (set_pixel v) cs (set_pixel v rc a) ! i ! j"
    by simp
  also have "\<dots> = (if (i, j) \<in> set cs then map (\<lambda>_. v) (set_pixel v rc a ! i ! j)
                    else set_pixel v rc a ! i ! j)"
    using Cons.prems by (intro Cons.IH) simp_all
  also have "\<dots> = (if (i, j) \<in> set (rc # cs) then map (\<lambda>_. v) (a ! i ! j) else a ! i ! j)"
    using Cons.prems by (auto simp: set_pixel_px)
  finally show ?case .
qed


lemma randint_Inr:
  assumes "randint low high n g = Inr (xs, g')"
  shows "length xs = nat n" and "\<forall>x \<in> set xs. low \<le> x \<and> int x < high"
    and "g' = advance (nat n) g" and "0 \<le> n"
proof -
  show "length xs = nat n" "g' = advance (nat n) g" "0 \<le> n"
    using assms by (auto simp: randint_def advance_def split: if_splits)
  show "\<forall>x \<in> set xs. low \<le> x \<and> int x < high"
  proof (cases "n = 0")
    case True then show ?thesis using assms by (simp add: randint_def)
  next
    case False
    then have hi: "int low < high"
      and xs: "xs = map (\<lambda>k. low + g k mod nat (high - int low)) [0..<nat n]"
      using assms by (auto simp: randint_def split: if_splits)
    have "int (low + g k mod nat (high - int low)) < high" for k
    proof -
      have "g k mod nat (high - int low) < nat (high - int low)" using hi by simp
      then have "int (g k mod nat (high - int low)) < high - int low" by linarith
      then show ?thesis by simp
    qed
    then show ?thesis by (auto simp: xs)
  qed
qed

lemma randint_returns:
  assumes "0 \<le> n" and "int low < high"
  shows "\<exists>xs. randint low high n g = Inr (xs, advance (nat n) g)"
  using assms by (auto simp: randint_def advance_def)

lemma advance_advance: "advance m (advance n g) = advance (m + n) g"
  by (simp add: advance_def add.assoc)

lemma width_eq_nth0: "a \<noteq> [] \<Longrightarrow> width a = length (a ! 0)"
  by (cases a) (simp_all add: width_def)

lemma fold_set_pixel_width [simp]: "width (fold (set_pixel v) cs a) = width a"
proof (cases "a = []")
  case True
  then have "fold (set_pixel v) cs a = []" by (metis fold_set_pixel_length length_0_conv)
  then show ?thesis using True by simp
next
  case False
  then have "fold (set_pixel v) cs a \<noteq> []" by (metis fold_set_pixel_length length_0_conv)
  then show ?thesis using False by (simp add: width_eq_nth0)
qed

lemma fold_set_pixel_height [simp]: "height (fold (set_pixel v) cs a) = height a"
  by (simp add: height_def)

lemma sample_coords_Inr:
  assumes "sample_coords F n g = Inr ((rows, cols, chans), g')"
  shows "length rows = nat n" and "length cols = nat n" and "0 \<le> n"
    and "\<forall>r \<in> set rows. int r < int (height F) - 1"
    and "\<forall>c \<in> set cols. int c < int (width F) - 1"
    and "g' = advance (3 * nat n) g"
proof -
  obtain g1 g2 where
    r: "randint 0 (int (height F) - 1) n g = Inr (rows, g1)" and
    c: "randint 0 (int (width F) - 1) n g1 = Inr (cols, g2)" and
    k: "randint 0 (int (depth F) - 1) n g2 = Inr (chans, g')"
    using assms by (auto simp: sample_coords_def split: sum.splits prod.splits)
  show "length rows = nat n" "0 \<le> n" "\<forall>r \<in> set rows. int r < int (height F) - 1"
    using randint_Inr [OF r] by simp_all
  show "length cols = nat n" "\<forall>c \<in> set cols. int c < int (width F) - 1"
    using randint_Inr [OF c] by simp_all
  have "g' = advance (nat n) (advance (nat n) (advance (nat n) g))"
    using randint_Inr(3) [OF r] randint_Inr(3) [OF c] randint_Inr(3) [OF k] by simp
  moreover have "nat n + (nat n + nat n) = 3 * nat n" by simp
  ultimately show "g' = advance (3 * nat n) g" by (simp only: advance_advance)
qed

lemma sample_coords_returns:
  assumes "0 \<le> n" and "2 \<le> height F" and "2 \<le> width F" and "2 \<le> depth F"
  shows "\<exists>rows cols chans g'. sample_coords F n g = Inr ((rows, cols, chans), g')"
proof -
  have b: "int 0 < int (height F) - 1" "int 0 < int (width F) - 1" "int 0 < int (depth F) - 1"
    using assms by simp_all
  obtain rows where r: "randint 0 (int (height F) - 1) n g = Inr (rows, advance (nat n) g)"
    using randint_returns [OF assms(1) b(1)] by blast
  obtain cols where c: "randint 0 (int (width F) - 1) n (advance (nat n) g) =
      Inr (cols, advance (nat n) (advance (nat n) g))"
    using randint_returns [OF assms(1) b(2)] by blast
  obtain chans where k: "randint 0 (int (depth F) - 1) n (advance (nat n) (advance (nat n) g)) =
      Inr (chans, advance (nat n) (advance (nat n) (advance (nat n) g)))"
    using randint_returns [OF assms(1) b(3)] by blast
  show ?thesis by (simp add: sample_coords_def r c k)
qed

lemma assign_pixels_returns:
  assumes "\<forall>r \<in> set rows. int r < int (height a) - 1" and "\<forall>c \<in> set cols. int c < int (width a) - 1"
  shows "assign_pixels a rows cols v = Inr (fold (set_pixel v) (zip rows cols) a)"
proof -
  have "fst rc < height a \<and> snd rc < width a" if "rc \<in> set (zip rows cols)" for rc
  proof -
    obtain r c where rc: "rc = (r, c)" by (cases rc)
    then have "r \<in> set rows" "c \<in> set cols"
      using that by (auto dest: set_zip_leftD set_zip_rightD)
    then have "int r < int (height a) - 1" "int c < int (width a) - 1"
      using assms by blast+
    then show ?thesis by (simp add: rc)
  qed
  then show ?thesis by (simp add: assign_pixels_def)
qed

lemma salt_and_pepper_Inr:
  assumes "salt_and_pepper_noise F amount g = Inr (G, g')"
  shows "\<exists>rows cols chans g1 rows' cols' chans'.
           sample_coords F (num_salt F amount) g = Inr ((rows, cols, chans), g1) \<and>
           sample_coords F (num_pepper F amount) g1 = Inr ((rows', cols', chans'), g') \<and>
           G = fold (set_pixel 0) (zip rows' cols') (fold (set_pixel 255) (zip rows cols) F)"
proof -
  obtain rows cols chans g1 salted rows' cols' chans' where
    s: "sample_coords F (num_salt F amount) g = Inr ((rows, cols, chans), g1)" and
    a: "assign_pixels F rows cols 255 = Inr salted" and
    p: "sample_coords F (num_pepper F amount) g1 = Inr ((rows', cols', chans'), g')" and
    b: "assign_pixels salted rows' cols' 0 = Inr G"
    using assms by (auto simp: salt_and_pepper_noise_def split: sum.splits prod.splits)
  have "salted = fold (set_pixel 255) (zip rows cols) F"
    using a by (auto simp: assign_pixels_def split: if_splits)
  moreover have "G = fold (set_pixel 0) (zip rows' cols') salted"
    using b by (auto simp: assign_pixels_def split: if_splits)
  ultimately show ?thesis using s p by blast
qed

lemma num_salt_nonneg:
  assumes "0 \<le> amount"
  shows "0 \<le> num_salt F amount" and "0 \<le> num_pepper F amount"
proof -
  have "0 \<le> amount * of_nat (size_of F) * (1 / 2)" using assms by simp
  from ceiling_mono [OF this]
  show "0 \<le> num_salt F amount" and "0 \<le> num_pepper F amount"
    unfolding num_salt_def num_pepper_def by simp_all
qed

lemma salt_and_pepper_returns:
  assumes "frame_ok F" and "2 \<le> height F" and "2 \<le> width F" and "0 \<le> amount"
  shows "\<exists>G g'. salt_and_pepper_noise F amount g = Inr (G, g')"
proof -
  have d: "2 \<le> depth F" using frame_ok_depth [OF assms(1)] by simp
  obtain rows cols chans g1 where
    s: "sample_coords F (num_salt F amount) g = Inr ((rows, cols, chans), g1)"
    using sample_coords_returns [OF num_salt_nonneg(1) [OF assms(4)] assms(2,3) d] by blast
  have a: "assign_pixels F rows cols 255 = Inr (fold (set_pixel 255) (zip rows cols) F)"
    using sample_coords_Inr(4,5) [OF s] by (rule assign_pixels_returns)
  obtain rows' cols' chans' g2 where
    p: "sample_coords F (num_pepper F amount) g1 = Inr ((rows', cols', chans'), g2)"
    using sample_coords_returns [OF num_salt_nonneg(2) [OF assms(4)] assms(2,3) d] by blast
  have b: "assign_pixels (fold (set_pixel 255) (zip rows cols) F) rows' cols' 0 =
      Inr (fold (set_pixel 0) (zip rows' cols') (fold (set_pixel 255) (zip rows cols) F))"
    using sample_coords_Inr(4,5) [OF p] by (intro assign_pixels_returns) simp_all
  show ?thesis by (simp add: salt_and_pepper_noise_def s a p b)
qed

lemma map_const_3: "length px = 3 \<Longrightarrow> map (\<lambda>_. v) px = [v, v, v]"
  by (auto simp: numeral_3_eq_3 length_Suc_conv)

lemma salt_and_pepper_px:
  assumes "i < length F" and "j < length (F ! i)"
  shows "fold (set_pixel 0) cs' (fold (set_pixel 255) cs F) ! i ! j =
           (if (i, j) \<in> set cs' then map (\<lambda>_. 0) (F ! i ! j)
            else if (i, j) \<in> set cs then map (\<lambda>_. 255) (F ! i ! j)
            else F ! i ! j)"
  using assms by (simp add: fold_set_pixel_px)

lemma size_of_ok: "frame_ok F \<Longrightarrow> size_of F = height F * width F * 3"
  by (simp add: size_of_def frame_ok_depth)

lemma salt_and_pepper_untouched:
  assumes "salt_and_pepper_noise F amount g = Inr (G, g')"
    and "i < length F" and "j < length (F ! i)"
    and "i = height F - 1 \<or> j = width F - 1"
  shows "G ! i ! j = F ! i ! j"
proof -
  obtain rows cols chans g1 rows' cols' chans' where
    s: "sample_coords F (num_salt F amount) g = Inr ((rows, cols, chans), g1)" and
    p: "sample_coords F (num_pepper F amount) g1 = Inr ((rows', cols', chans'), g')" and
    G: "G = fold (set_pixel 0) (zip rows' cols') (fold (set_pixel 255) (zip rows cols) F)"
    using salt_and_pepper_Inr [OF assms(1)] by blast
  have "(i, j) \<notin> set (zip rows cols)"
  proof
    assume "(i, j) \<in> set (zip rows cols)"
    then have "i \<in> set rows" "j \<in> set cols"
      by (auto dest: set_zip_leftD set_zip_rightD)
    then have "int i < int (height F) - 1" "int j < int (width F) - 1"
      using sample_coords_Inr(4,5) [OF s] by blast+
    then show False using assms(4) by linarith
  qed
  moreover have "(i, j) \<notin> set (zip rows' cols')"
  proof
    assume "(i, j) \<in> set (zip rows' cols')"
    then have "i \<in> set rows'" "j \<in> set cols'"
      by (auto dest: set_zip_leftD set_zip_rightD)
    then have "int i < int (height F) - 1" "int j < int (width F) - 1"
      using sample_coords_Inr(4,5) [OF p] by blast+
    then show False using assms(4) by linarith
  qed
  ultimately show ?thesis using assms(2,3) by (simp add: G salt_and_pepper_px)
qed

lemma salt_and_pepper_last_row:
  assumes "salt_and_pepper_noise F amount g = Inr (G, g')" and "F \<noteq> []"
  shows "G ! (height F - 1) = F ! (height F - 1)"
proof (rule nth_equalityI)
  obtain rows cols chans g1 rows' cols' chans' where
    G: "G = fold (set_pixel 0) (zip rows' cols') (fold (set_pixel 255) (zip rows cols) F)"
    using salt_and_pepper_Inr [OF assms(1)] by blast
  have h: "height F - 1 < length F" using assms(2) by (simp add: height_def)
  show len: "length (G ! (height F - 1)) = length (F ! (height F - 1))" by (simp add: G)
  fix j assume "j < length (G ! (height F - 1))"
  then have "j < length (F ! (height F - 1))" using len by simp
  then show "G ! (height F - 1) ! j = F ! (height F - 1) ! j"
    using h by (intro salt_and_pepper_untouched [OF assms(1)]) simp_all
qed

lemma salt_and_pepper_shape:
  assumes "salt_and_pepper_noise F amount g = Inr (G, g')" and "frame_ok F"
  shows "frame_ok G" and "shape G = shape F"
proof -
  obtain rows cols chans g1 rows' cols' chans' where
    G: "G = fold (set_pixel 0) (zip rows' cols') (fold (set_pixel 255) (zip rows cols) F)"
    using salt_and_pepper_Inr [OF assms(1)] by blast
  show "frame_ok G" "shape G = shape F"
    by (rule frame_ok_same_lengths(1,4) [OF assms(2)]; simp add: G fold_set_pixel_px)+
qed

text \<open>
  Claim C10. On a frame of at least two rows and two columns, whatever the amount and
  whatever the generator yields, every frame that \<open>salt_and_pepper_noise\<close> returns has its
  last row and its last column equal to the input's. It returns a frame for every amount
  that is not negative.
\<close>

theorem salt_and_pepper_spares_last_row_and_column:
  assumes "frame_ok F" and "2 \<le> height F" and "2 \<le> width F"
  shows "(\<forall>G g'. salt_and_pepper_noise F amount g = Inr (G, g') \<longrightarrow>
            shape G = shape F \<and>
            G ! (height F - 1) = F ! (height F - 1) \<and>
            (\<forall>r<height F. G ! r ! (width F - 1) = F ! r ! (width F - 1))) \<and>
         (0 \<le> amount \<longrightarrow> (\<exists>G g'. salt_and_pepper_noise F amount g = Inr (G, g')))"
proof (intro conjI allI impI)
  assume "0 \<le> amount"
  then show "\<exists>G g'. salt_and_pepper_noise F amount g = Inr (G, g')"
    by (rule salt_and_pepper_returns [OF assms])
next
  fix G g' assume run: "salt_and_pepper_noise F amount g = Inr (G, g')"
  have F: "F \<noteq> []" using assms(1) by (simp add: frame_ok_def)
  show "shape G = shape F"
    by (rule salt_and_pepper_shape(2) [OF run assms(1)])
  show "G ! (height F - 1) = F ! (height F - 1)"
    by (rule salt_and_pepper_last_row [OF run F])
  show "G ! r ! (width F - 1) = F ! r ! (width F - 1)" if "r < height F" for r
  proof -
    have r: "r < length F" using that by (simp add: height_def)
    then have "width F - 1 < length (F ! r)"
      using frame_ok_row [OF assms(1) r] assms(3) by simp
    then show ?thesis using r by (intro salt_and_pepper_untouched [OF run]) simp_all
  qed
qed

theorem salt_and_pepper_spares_last_row_and_column_witness:
  "frame_ok [[[1, 2, 3], [4, 5, 6], [1, 1, 1]], [[7, 8, 9], [10, 11, 12], [2, 2, 2]], [[3, 3, 3], [4, 4, 4], [5, 5, 5]]] \<and>
   map_sum id fst (salt_and_pepper_noise
     [[[1, 2, 3], [4, 5, 6], [1, 1, 1]], [[7, 8, 9], [10, 11, 12], [2, 2, 2]], [[3, 3, 3], [4, 4, 4], [5, 5, 5]]]
     (1 / 9) (\<lambda>k. k div 2)) =
   Inr [[[1, 2, 3], [255, 255, 255], [1, 1, 1]], [[0, 0, 0], [10, 11, 12], [2, 2, 2]], [[3, 3, 3], [4, 4, 4], [5, 5, 5]]]"
proof -
  let ?F = "[[[1, 2, 3], [4, 5, 6], [1, 1, 1]], [[7, 8, 9], [10, 11, 12], [2, 2, 2]], [[3, 3, 3], [4, 4, 4], [5, 5, 5]]] :: frame"
  have h: "frame_ok ?F" "2 \<le> height ?F" "2 \<le> width ?F"
    by code_simp+
  have e: "map_sum id fst (salt_and_pepper_noise ?F (1 / 9) (\<lambda>k. k div 2)) =
    Inr [[[1, 2, 3], [255, 255, 255], [1, 1, 1]], [[0, 0, 0], [10, 11, 12], [2, 2, 2]], [[3, 3, 3], [4, 4, 4], [5, 5, 5]]]"
    by code_simp
  from salt_and_pepper_spares_last_row_and_column [OF h, of "1 / 9" "\<lambda>k. k div 2"] h e
  show ?thesis by simp
qed

text \<open>
  Claim C1, as amended. On a frame of at least two rows and two columns and for an amount
  that is not negative, \<open>salt_and_pepper_noise\<close> returns a frame. It draws two lists of
  locations, the second from the generator as the first left it, each of length the
  ceiling of amount times the number of array elements (height times width times the
  three channels) times one half; locations may repeat, and all lie inside the frame.
  In the result, every channel is 0 at the locations of the second list and 255 at those
  of the first list that are not in the second, and every other pixel is the input's.
\<close>

theorem salt_and_pepper_locations:
  assumes "frame_ok F" and "2 \<le> height F" and "2 \<le> width F" and "0 \<le> amount"
  shows "\<exists>rows cols chans g1 rows' cols' chans' G g'.
           salt_and_pepper_noise F amount g = Inr (G, g') \<and>
           sample_coords F \<lceil>amount * of_nat (height F * width F * 3) * (1 / 2)\<rceil> g =
             Inr ((rows, cols, chans), g1) \<and>
           sample_coords F \<lceil>amount * of_nat (height F * width F * 3) * (1 / 2)\<rceil> g1 =
             Inr ((rows', cols', chans'), g') \<and>
           int (length rows) = \<lceil>amount * of_nat (height F * width F * 3) * (1 / 2)\<rceil> \<and>
           length cols = length rows \<and> length rows' = length rows \<and> length cols' = length rows \<and>
           (\<forall>rc \<in> set (zip rows cols) \<union> set (zip rows' cols'). fst rc < height F \<and> snd rc < width F) \<and>
           frame_ok G \<and> shape G = shape F \<and>
           (\<forall>r<height F. \<forall>c<width F.
              G ! r ! c = (if (r, c) \<in> set (zip rows' cols') then [0, 0, 0]
                           else if (r, c) \<in> set (zip rows cols) then [255, 255, 255]
                           else F ! r ! c))"
proof -
  let ?n = "\<lceil>amount * of_nat (height F * width F * 3) * (1 / 2)\<rceil>"
  have n: "num_salt F amount = ?n" "num_pepper F amount = ?n"
    by (simp_all add: num_salt_def num_pepper_def size_of_ok [OF assms(1)])
  obtain G g' where run: "salt_and_pepper_noise F amount g = Inr (G, g')"
    using salt_and_pepper_returns [OF assms] by blast
  then obtain rows cols chans g1 rows' cols' chans' where
    s: "sample_coords F ?n g = Inr ((rows, cols, chans), g1)" and
    p: "sample_coords F ?n g1 = Inr ((rows', cols', chans'), g')" and
    G: "G = fold (set_pixel 0) (zip rows' cols') (fold (set_pixel 255) (zip rows cols) F)"
    using salt_and_pepper_Inr [of F amount g G g'] unfolding n by blast
  note sr = sample_coords_Inr [OF s] and pr = sample_coords_Inr [OF p]
  have len: "int (length rows) = ?n" "length cols = length rows" "length rows' = length rows"
    "length cols' = length rows"
    using sr(1,2,3) pr(1,2) by simp_all
  have inside: "fst rc < height F \<and> snd rc < width F"
    if "rc \<in> set (zip rows cols) \<union> set (zip rows' cols')" for rc
  proof -
    obtain r c where rc: "rc = (r, c)" by (cases rc)
    then have "(r \<in> set rows \<and> c \<in> set cols) \<or> (r \<in> set rows' \<and> c \<in> set cols')"
      using that by (auto dest: set_zip_leftD set_zip_rightD)
    then have "int r < int (height F) - 1 \<and> int c < int (width F) - 1"
      using sr(4,5) pr(4,5) by blast
    then show ?thesis by (simp add: rc)
  qed
  have okG: "frame_ok G" "shape G = shape F"
    by (rule frame_ok_same_lengths(1,4) [OF assms(1)]; simp add: G fold_set_pixel_px)+
  have px: "G ! r ! c = (if (r, c) \<in> set (zip rows' cols') then [0, 0, 0]
                           else if (r, c) \<in> set (zip rows cols) then [255, 255, 255]
                           else F ! r ! c)"
    if "r < height F" "c < width F" for r c
  proof -
    have r: "r < length F" using that(1) by (simp add: height_def)
    then have c: "c < length (F ! r)" using frame_ok_row [OF assms(1) r] that(2) by simp
    have "length (F ! r ! c) = 3" by (rule frame_ok_px [OF assms(1) r that(2)])
    then show ?thesis using r c by (simp add: G salt_and_pepper_px map_const_3)
  qed
  show ?thesis
    using run s p len inside okG px by blast
qed

theorem salt_and_pepper_locations_witness:
  "frame_ok [[[1, 2, 3], [4, 5, 6], [1, 1, 1]], [[7, 8, 9], [10, 11, 12], [2, 2, 2]], [[3, 3, 3], [4, 4, 4], [5, 5, 5]]] \<and>
   (\<exists>rows cols chans g1. sample_coords
      [[[1, 2, 3], [4, 5, 6], [1, 1, 1]], [[7, 8, 9], [10, 11, 12], [2, 2, 2]], [[3, 3, 3], [4, 4, 4], [5, 5, 5]]]
      \<lceil>(1 / 9 :: rat) * of_nat (3 * 3 * 3) * (1 / 2)\<rceil> (\<lambda>k. k div 2) = Inr ((rows, cols, chans), g1) \<and>
      length rows = 2 \<and> length cols = 2)"
proof -
  let ?F = "[[[1, 2, 3], [4, 5, 6], [1, 1, 1]], [[7, 8, 9], [10, 11, 12], [2, 2, 2]], [[3, 3, 3], [4, 4, 4], [5, 5, 5]]] :: frame"
  have h: "frame_ok ?F" "2 \<le> height ?F" "2 \<le> width ?F" "(0::rat) \<le> 1 / 9"
    by code_simp+
  have d: "height ?F = 3" "width ?F = 3"
    by code_simp+
  have n: "\<lceil>(1 / 9 :: rat) * of_nat (3 * 3 * 3) * (1 / 2)\<rceil> = 2"
    by code_simp
  from salt_and_pepper_locations [OF h, of "\<lambda>k. k div 2"] h(1)
  show ?thesis unfolding d n by auto
qed

text \<open>
  Claim C1 as stated fails on the frame of two rows and two columns with amount one half.
  Half the amount times the four pixels is 1, but each list has 3 locations, the channels
  being counted in \<open>frame.size\<close>; and whatever the generator yields, the second row comes
  back unchanged, so the row indices do not range over both rows.
\<close>

theorem salt_and_pepper_locations_counterexample:
  "num_salt [[[1, 2, 3], [4, 5, 6]], [[7, 8, 9], [10, 11, 12]]] (1 / 2) = 3 \<and>
   num_pepper [[[1, 2, 3], [4, 5, 6]], [[7, 8, 9], [10, 11, 12]]] (1 / 2) = 3 \<and>
   \<lceil>(1 / 2 :: rat) * of_nat (height [[[1, 2, 3], [4, 5, 6]], [[7, 8, 9], [10, 11, 12 :: 8 word]]] *
                              width [[[1, 2, 3], [4, 5, 6]], [[7, 8, 9], [10, 11, 12 :: 8 word]]]) * (1 / 2)\<rceil> = 1 \<and>
   \<not> (\<exists>g G g'. salt_and_pepper_noise [[[1, 2, 3], [4, 5, 6]], [[7, 8, 9], [10, 11, 12]]] (1 / 2) g = Inr (G, g') \<and>
                G ! 1 \<noteq> [[7, 8, 9], [10, 11, 12]])"
proof -
  let ?F = "[[[1, 2, 3], [4, 5, 6]], [[7, 8, 9], [10, 11, 12]]] :: frame"
  have "num_salt ?F (1 / 2) = 3" "num_pepper ?F (1 / 2) = 3"
    by code_simp+
  moreover have "\<lceil>(1 / 2 :: rat) * of_nat (height ?F * width ?F) * (1 / 2)\<rceil> = 1"
    by code_simp
  moreover have "G ! 1 = [[7, 8, 9], [10, 11, 12]]"
    if "salt_and_pepper_noise ?F (1 / 2) g = Inr (G, g')" for g G g'
    using salt_and_pepper_last_row [OF that] by (simp add: height_def)
  ultimately show ?thesis by blast
qed

section \<open>Verified properties: shapes\<close>

lemma same_structure:
  assumes "frame_ok F" and "map (map length) G = map (map length) F"
  shows "frame_ok G" and "shape G = shape F"
proof -
  have len: "length G = length F" using assms(2) by (metis length_map)
  have rows: "map length (G ! i) = map length (F ! i)" if "i < length F" for i
  proof -
    have "map (map length) G ! i = map (map length) F ! i" using assms(2) by simp
    then show ?thesis using that len by simp
  qed
  have row_len: "length (G ! i) = length (F ! i)" if "i < length F" for i
    using rows [OF that] by (metis length_map)
  have px: "length (G ! i ! j) = length (F ! i ! j)" if "i < length F" "j < length (F ! i)" for i j
  proof -
    have "map length (G ! i) ! j = map length (F ! i) ! j" using rows [OF that(1)] by simp
    then show ?thesis using that row_len [OF that(1)] by simp
  qed
  show "frame_ok G" "shape G = shape F"
    using frame_ok_same_lengths(1,4) [OF assms(1) len row_len px] by blast+
qed

lemma zeros_like_structure [simp]: "map (map length) (zeros_like a) = map (map length) a"
  by (simp add: zeros_like_def comp_def)

lemma cv2_randn_structure [simp]:
  "map (map length) (fst (cv2_randn lib a sigma g)) = map (map length) a"
proof (rule nth_equalityI)
  show "length (map (map length) (fst (cv2_randn lib a sigma g))) = length (map (map length) a)"
    by (simp add: cv2_randn_def)
next
  fix i assume "i < length (map (map length) (fst (cv2_randn lib a sigma g)))"
  then have i: "i < length a" by (simp add: cv2_randn_def)
  have "map length (fst (cv2_randn lib a sigma g) ! i) = map length (a ! i)"
    using i by (intro nth_equalityI) (simp_all add: cv2_randn_def)
  then show "map (map length) (fst (cv2_randn lib a sigma g)) ! i = map (map length) a ! i"
    using i by (simp add: cv2_randn_def)
qed

lemma map2_structure:
  assumes "map (map length) a = map (map length) b"
  shows "map (map length) (map2 (map2 (map2 f)) a b) = map (map length) a"
proof (rule nth_equalityI)
  have len: "length a = length b" using assms by (metis length_map)
  show "length (map (map length) (map2 (map2 (map2 f)) a b)) = length (map (map length) a)"
    using len by simp
  fix i assume "i < length (map (map length) (map2 (map2 (map2 f)) a b))"
  then have i: "i < length a" using len by simp
  have rows: "map length (a ! i) = map length (b ! i)"
  proof -
    have "map (map length) a ! i = map (map length) b ! i" using assms by simp
    then show ?thesis using i len by simp
  qed
  then have rl: "length (a ! i) = length (b ! i)" by (metis length_map)
  have "map length (map2 (map2 f) (a ! i) (b ! i)) = map length (a ! i)"
  proof (rule nth_equalityI)
    show "length (map length (map2 (map2 f) (a ! i) (b ! i))) = length (map length (a ! i))"
      using rl by simp
    fix j assume "j < length (map length (map2 (map2 f) (a ! i) (b ! i)))"
    then have j: "j < length (a ! i)" using rl by simp
    have "map length (a ! i) ! j = map length (b ! i) ! j" using rows by simp
    then have "length (a ! i ! j) = length (b ! i ! j)" using j rl by simp
    then show "map length (map2 (map2 f) (a ! i) (b ! i)) ! j = map length (a ! i) ! j"
      using j rl by simp
  qed
  then show "map (map length) (map2 (map2 (map2 f)) a b) ! i = map (map length) a ! i"
    using i len by simp
qed

lemma gaussian_noise_returns:
  "\<exists>G. gaussian_noise lib F sigma cg = Inr (G, advance (size_of F) cg) \<and>
       map (map length) G = map (map length) F"
proof -
  let ?noise = "fst (cv2_randn lib (zeros_like F) sigma cg)"
  have st: "map (map length) F = map (map length) ?noise" by simp
  have sz: "size_of (zeros_like F) = size_of F"
    by (cases F; cases "hd F"; simp add: size_of_def height_def width_def depth_def zeros_like_def split: list.splits)
  have "gaussian_noise lib F sigma cg =
          Inr (map2 (map2 (map2 saturating_add)) F ?noise, advance (size_of F) cg)"
    using st sz by (simp add: gaussian_noise_def cv2_add_def cv2_randn_def Let_def)
  then show ?thesis using map2_structure [OF st] by simp
qed

lemma frame_ok_lengths:
  assumes "frame_ok F"
  shows "map (map length) F = replicate (height F) (replicate (width F) 3)"
proof (rule nth_equalityI)
  show "length (map (map length) F) = length (replicate (height F) (replicate (width F) 3))"
    by (simp add: height_def)
next
  fix i assume "i < length (map (map length) F)"
  then have i: "i < length F" by simp
  have "map length (F ! i) = replicate (width F) 3"
    using frame_ok_px [OF assms i] frame_ok_row [OF assms i]
    by (intro nth_equalityI) simp_all
  then show "map (map length) F ! i = replicate (height F) (replicate (width F) 3) ! i"
    using i by (simp add: height_def)
qed

lemma frame_ok_row_lengths:
  assumes "frame_ok F"
  shows "map length F = replicate (height F) (width F)"
  using frame_ok_row [OF assms] by (intro nth_equalityI) (simp_all add: height_def)

lemma filter2D_structure:
  assumes "frame_ok F"
  shows "map (map length) (cv2_filter2D F kern) = map (map length) F"
  unfolding frame_ok_lengths [OF assms]
  by (simp add: cv2_filter2D_def Let_def comp_def frame_ok_depth [OF assms] map_replicate_const)

lemma motion_blur_returns:
  assumes "frame_ok F" and "1 \<le> k"
  shows "\<exists>G. motion_blur F k = Inr G \<and> map (map length) G = map (map length) F"
proof -
  obtain kern where "line_kernel k = Inr kern"
    using assms(2) by (auto simp: line_kernel_def Let_def)
  then show ?thesis using filter2D_structure [OF assms(1)] by (simp add: motion_blur_def)
qed

lemma color_banding_structure:
  assumes "color_banding pr F levels = Inr G"
  shows "map (map length) G = map (map length) F"
  using assms by (auto simp: color_banding_def comp_def split: if_splits)

lemma color_banding_returns:
  assumes "1 \<le> levels" and "pr = ValueBased \<or> 256 div levels \<le> 255"
  shows "\<exists>G. color_banding pr F levels = Inr G"
  using assms by (auto simp: color_banding_def)

lemma set_channel_structure:
  assumes "map length p = map length a"
  shows "map (map length) (set_channel i p a) = map (map length) a"
proof (rule nth_equalityI)
  have len: "length p = length a" using assms by (metis length_map)
  show "length (map (map length) (set_channel i p a)) = length (map (map length) a)"
    using len by (simp add: set_channel_def)
  fix r assume "r < length (map (map length) (set_channel i p a))"
  then have r: "r < length a" using len by (simp add: set_channel_def)
  have "map length p ! r = map length a ! r" using assms by simp
  then have rl: "length (p ! r) = length (a ! r)" using r len by simp
  have "map length (map2 (\<lambda>px v. px[i := v]) (a ! r) (p ! r)) = map length (a ! r)"
    using rl by (intro nth_equalityI) simp_all
  then show "map (map length) (set_channel i p a) ! r = map (map length) a ! r"
    using r len by (simp add: set_channel_def)
qed

lemma map2_map2_lengths:
  assumes "map length a = map length m"
  shows "map length (map2 (map2 f) a m) = map length a"
proof (rule nth_equalityI)
  have len: "length a = length m" using assms by (metis length_map)
  show "length (map length (map2 (map2 f) a m)) = length (map length a)"
    using len by simp
  fix r assume "r < length (map length (map2 (map2 f) a m))"
  then have r: "r < length a" using len by simp
  have "map length a ! r = map length m ! r" using assms by simp
  then have "length (a ! r) = length (m ! r)" using r len by simp
  then show "map length (map2 (map2 f) a m) ! r = map length a ! r"
    using r len by simp
qed

lemma structure_rows:
  assumes "map (map length) a = map (map length) b"
  shows "map length a = map length b"
proof -
  have "map length (map (map length) a) = map length (map (map length) b)"
    using assms by simp
  then show ?thesis by (simp add: comp_def)
qed

lemma vignette_loop_returns:
  assumes "map length frame = map length msk" and "\<forall>i \<in> set js. i < depth frame"
    and "map (map length) acc = map (map length) frame"
  shows "\<exists>G. vignette_loop frame msk js acc = Inr G \<and> map (map length) G = map (map length) frame"
  using assms(2,3)
proof (induction js arbitrary: acc)
  case Nil
  then show ?case by simp
next
  case (Cons i js)
  let ?p = "map2 (map2 (\<lambda>px m. truncate_u8 (of_nat (unat (px ! i)) * m))) frame msk"
  have "map length ?p = map length acc"
    using map2_map2_lengths [OF assms(1)] structure_rows [OF Cons.prems(2)] by simp
  then have "map (map length) (set_channel i ?p acc) = map (map length) frame"
    using set_channel_structure Cons.prems(2) by simp
  then obtain G where "vignette_loop frame msk js (set_channel i ?p acc) = Inr G"
    "map (map length) G = map (map length) frame"
    using Cons.IH Cons.prems(1) by auto
  then show ?case using Cons.prems(1) assms(1) by simp
qed

lemma vignetting_returns:
  assumes "frame_ok F" and "\<forall>n sigma. length (gaussian_kernel lib n sigma) = n"
  shows "\<exists>G. vignetting lib F = Inr G \<and> map (map length) G = map (map length) F"
proof -
  let ?X = "gaussian_kernel lib (width F) (of_nat (width F) / 2)"
  let ?Y = "gaussian_kernel lib (height F) (of_nat (height F) / 2)"
  let ?k = "outer_product ?Y ?X"
  have pos: "0 < height F" "0 < width F" using assms(1) by (simp_all add: frame_ok_def height_def)
  have lens: "length ?X = width F" "length ?Y = height F" using assms(2) by simp_all
  have klen: "map length ?k = replicate (height F) (width F)"
    using lens by (simp add: outer_product_def comp_def map_replicate_const)
  have "length (concat ?k) = sum_list (map length ?k)" by (simp add: length_concat)
  also have "\<dots> = height F * width F" unfolding klen by (simp add: sum_list_replicate)
  finally have "length (concat ?k) \<noteq> 0" using pos by simp
  then have "concat ?k \<noteq> []" by (metis list.size(3))
  then obtain x xs where c: "concat ?k = x # xs" by (cases "concat ?k") auto
  let ?m = "map (map (\<lambda>v. v / fold max xs x)) ?k"
  have m: "map length F = map length ?m"
    using klen frame_ok_row_lengths [OF assms(1)] by (simp add: comp_def)
  have d: "\<forall>i \<in> set [0..<3]. i < depth F" using frame_ok_depth [OF assms(1)] by simp
  obtain G where "vignette_loop F ?m [0..<3] (zeros_like F) = Inr G"
    "map (map length) G = map (map length) F"
    using vignette_loop_returns [OF m d zeros_like_structure] by blast
  then show ?thesis by (simp add: vignetting_def Let_def c)
qed

lemma cv2_circle_structure [simp]:
  "map (map length) (cv2_circle lib a centre radius color) = map (map length) a"
proof (rule nth_equalityI)
  show "length (map (map length) (cv2_circle lib a centre radius color)) = length (map (map length) a)"
    by (simp add: cv2_circle_def)
next
  fix i assume "i < length (map (map length) (cv2_circle lib a centre radius color))"
  then have i: "i < length a" by (simp add: cv2_circle_def)
  have "map length (cv2_circle lib a centre radius color ! i) = map length (a ! i)"
    using i by (intro nth_equalityI) (simp_all add: cv2_circle_def nth_enumerate_eq)
  then show "map (map length) (cv2_circle lib a centre radius color) ! i = map (map length) a ! i"
    using i by (simp add: cv2_circle_def)
qed

lemma randint1_returns:
  assumes "int low < high"
  shows "\<exists>x. randint1 low high g = Inr (x, advance 1 g)"
  using assms by (simp add: randint1_def)

lemma dust_loop_returns:
  assumes "0 < h" and "0 < w"
  shows "\<exists>G. dust_loop lib h w n a g = Inr (G, advance (4 * n) g) \<and> map (map length) G = map (map length) a"
proof (induction n arbitrary: a g)
  case 0
  then show ?case by (simp add: advance_def)
next
  case (Suc n)
  obtain x where x: "randint1 0 (int w) g = Inr (x, advance 1 g)"
    using randint1_returns [of 0 "int w"] assms by auto
  obtain y where y: "randint1 0 (int h) (advance 1 g) = Inr (y, advance 1 (advance 1 g))"
    using randint1_returns [of 0 "int h"] assms by auto
  obtain r where r: "randint1 5 15 (advance 1 (advance 1 g)) = Inr (r, advance 1 (advance 1 (advance 1 g)))"
    using randint1_returns [of 5 15] by auto
  obtain c where c: "randint1 50 100 (advance 1 (advance 1 (advance 1 g))) =
      Inr (c, advance 1 (advance 1 (advance 1 (advance 1 g))))"
    using randint1_returns [of 50 100] by auto
  have "4 * n + (1 + (1 + (1 + 1))) = 4 * Suc n" by simp
  then have adv: "advance (4 * n) (advance 1 (advance 1 (advance 1 (advance 1 g)))) = advance (4 * Suc n) g"
    by (simp only: advance_advance)
  obtain G where G: "dust_loop lib h w n (cv2_circle lib a (x, y) r c) (advance 1 (advance 1 (advance 1 (advance 1 g)))) =
      Inr (G, advance (4 * Suc n) g)" "map (map length) G = map (map length) a"
    using Suc.IH [of "cv2_circle lib a (x, y) r c" "advance 1 (advance 1 (advance 1 (advance 1 g)))"]
    unfolding adv by auto
  have "dust_loop lib h w (Suc n) a g =
      dust_loop lib h w n (cv2_circle lib a (x, y) r c) (advance 1 (advance 1 (advance 1 (advance 1 g))))"
    by (simp only: dust_loop.simps x y r c sum.case prod.case)
  then show ?case using G by auto
qed

lemma dust_dirt_particles_returns:
  assumes "frame_ok F"
  shows "\<exists>G g'. dust_dirt_particles lib F n g = Inr (G, g') \<and> map (map length) G = map (map length) F"
proof -
  have "0 < height F" "0 < width F" using assms by (simp_all add: frame_ok_def height_def)
  from dust_loop_returns [OF this, of lib "nat n" F g]
  show ?thesis by (auto simp: dust_dirt_particles_def)
qed

lemma plain_library_contract: "cv2_contract plain_library"
  by (simp add: cv2_contract_def plain_library_def)

text \<open>
  Claim C8, as amended. Every pixel transform returns a frame of the height, width and
  channel count of the frame it is given, under these conditions: \<open>motion_blur\<close> for a
  kernel size of at least 1; \<open>color_banding\<close> for a level count of at least 1 whose step
  \<open>256 div levels\<close> fits in 8 bits or is promoted; \<open>salt_and_pepper_noise\<close> for an amount
  that is not negative on a frame of at least two rows and two columns; the transforms
  built on the JPEG codec, the undistortion and the Gaussian kernel provided these keep
  the sizes their documentation states.
\<close>

theorem transforms_keep_shape:
  assumes "frame_ok F" and "cv2_contract lib"
  shows
    "(\<exists>G cg'. gaussian_noise lib F sigma cg = Inr (G, cg') \<and> frame_ok G \<and> shape G = shape F) \<and>
     (frame_ok (compression_artifacts lib F q) \<and> shape (compression_artifacts lib F q) = shape F) \<and>
     (1 \<le> ks \<longrightarrow> (\<exists>G. motion_blur F ks = Inr G \<and> frame_ok G \<and> shape G = shape F)) \<and>
     (1 \<le> levels \<and> (pr = ValueBased \<or> 256 div levels \<le> 255) \<longrightarrow>
        (\<exists>G. color_banding pr F levels = Inr G \<and> frame_ok G \<and> shape G = shape F)) \<and>
     (2 \<le> height F \<and> 2 \<le> width F \<and> 0 \<le> amount \<longrightarrow>
        (\<exists>G g'. salt_and_pepper_noise F amount g = Inr (G, g') \<and> frame_ok G \<and> shape G = shape F)) \<and>
     (frame_ok (lens_distortion lib F k1 k2) \<and> shape (lens_distortion lib F k1 k2) = shape F) \<and>
     (\<exists>G. vignetting lib F = Inr G \<and> frame_ok G \<and> shape G = shape F) \<and>
     (\<exists>G. chromatic_aberration F shift = Inr G \<and> frame_ok G \<and> shape G = shape F) \<and>
     (\<exists>G g'. dust_dirt_particles lib F n g = Inr (G, g') \<and> frame_ok G \<and> shape G = shape F)"
proof (intro conjI impI)
  note st = same_structure [OF assms(1)]
  show "\<exists>G cg'. gaussian_noise lib F sigma cg = Inr (G, cg') \<and> frame_ok G \<and> shape G = shape F"
    using gaussian_noise_returns [of lib F sigma cg] st by blast
  show "frame_ok (compression_artifacts lib F q)"
    "shape (compression_artifacts lib F q) = shape F"
    using assms by (simp_all add: cv2_contract_def compression_artifacts_def)
  show "frame_ok (lens_distortion lib F k1 k2)"
    "shape (lens_distortion lib F k1 k2) = shape F"
    using assms by (simp_all add: cv2_contract_def lens_distortion_def Let_def)
  show "\<exists>G. vignetting lib F = Inr G \<and> frame_ok G \<and> shape G = shape F"
    using vignetting_returns [OF assms(1), of lib] assms(2) st unfolding cv2_contract_def by blast
  show "\<exists>G. chromatic_aberration F shift = Inr G \<and> frame_ok G \<and> shape G = shape F"
  proof -
    obtain G where G: "chromatic_aberration F shift = Inr G"
      using chromatic_aberration_ok [OF assms(1)] by blast
    note ok = chromatic_aberration_frame_ok [OF assms(1) G]
    have "shape G = shape F"
      using ok frame_ok_depth assms(1) by (simp add: shape_def)
    then show ?thesis using G ok(1) by blast
  qed
  show "\<exists>G g'. dust_dirt_particles lib F n g = Inr (G, g') \<and> frame_ok G \<and> shape G = shape F"
    using dust_dirt_particles_returns [OF assms(1), of lib n g] st by blast
next
  assume "1 \<le> ks"
  then show "\<exists>G. motion_blur F ks = Inr G \<and> frame_ok G \<and> shape G = shape F"
    using motion_blur_returns [OF assms(1)] same_structure [OF assms(1)] by blast
next
  assume "1 \<le> levels \<and> (pr = ValueBased \<or> 256 div levels \<le> 255)"
  then obtain G where G: "color_banding pr F levels = Inr G"
    using color_banding_returns by blast
  then show "\<exists>G. color_banding pr F levels = Inr G \<and> frame_ok G \<and> shape G = shape F"
    using same_structure [OF assms(1) color_banding_structure [OF G]] by blast
next
  assume "2 \<le> height F \<and> 2 \<le> width F \<and> 0 \<le> amount"
  then obtain G g' where G: "salt_and_pepper_noise F amount g = Inr (G, g')"
    using salt_and_pepper_returns [OF assms(1)] by blast
  then show "\<exists>G g'. salt_and_pepper_noise F amount g = Inr (G, g') \<and> frame_ok G \<and> shape G = shape F"
    using salt_and_pepper_shape [OF G assms(1)] by blast
qed

theorem transforms_keep_shape_witness:
  "frame_ok [[[1, 2, 3], [4, 5, 6]], [[7, 8, 9], [10, 11, 252]]] \<and> cv2_contract plain_library \<and>
   map_sum id fst (gaussian_noise plain_library [[[1, 2, 3], [4, 5, 6]], [[7, 8, 9], [10, 11, 252]]] 80 (\<lambda>k. k)) =
     Inr [[[1, 3, 5], [7, 9, 11]], [[13, 15, 17], [19, 21, 255]]] \<and>
   (\<exists>G. vignetting plain_library [[[1, 2, 3], [4, 5, 6]], [[7, 8, 9], [10, 11, 252]]] = Inr G \<and>
        frame_ok G \<and> shape G = shape [[[1, 2, 3], [4, 5, 6]], [[7, 8, 9], [10, 11, 252]]])"
proof -
  let ?F = "[[[1, 2, 3], [4, 5, 6]], [[7, 8, 9], [10, 11, 252]]] :: frame"
  have h: "frame_ok ?F" by code_simp
  have e: "map_sum id fst (gaussian_noise plain_library ?F 80 (\<lambda>k. k)) =
     Inr [[[1, 3, 5], [7, 9, 11]], [[13, 15, 17], [19, 21, 255]]]"
    by code_simp
  have "\<exists>G. vignetting plain_library ?F = Inr G \<and> frame_ok G \<and> shape G = shape ?F"
    using transforms_keep_shape [OF h plain_library_contract, where sigma = 80 and cg = "\<lambda>k. k"
        and q = 1 and ks = 3 and levels = 8 and pr = ValueBased and amount = "1 / 100"
        and g = "\<lambda>k. k" and ?k1.0 = "- (1 / 2)" and ?k2.0 = 0 and shift = 2 and n = 10]
    by (elim conjE)
  then show ?thesis using h plain_library_contract e by (intro conjI)
qed

text \<open>
  Claim C8 as stated fails: on a frame of one pixel, \<open>salt_and_pepper_noise\<close> with the
  default amount raises ValueError, \<open>color_banding\<close> with no levels raises
  ZeroDivisionError and \<open>motion_blur\<close> with kernel size 0 raises IndexError, so no
  frame is returned.
\<close>

theorem transforms_keep_shape_counterexample:
  "frame_ok [[[1, 2, 3]]] \<and>
   map_sum id fst (salt_and_pepper_noise [[[1, 2, 3]]] (1 / 100) (\<lambda>k. k)) = Inl ValueError \<and>
   color_banding ValueBased [[[1, 2, 3]]] 0 = Inl ZeroDivisionError \<and>
   motion_blur [[[1, 2, 3]]] 0 = Inl IndexError"
  by code_simp

section \<open>Verified properties: arrays as objects\<close>

lemma array_at_new [simp]:
  "p < length (heap s) \<Longrightarrow> array_at (s\<lparr>heap := heap s @ xs\<rparr>) p = array_at s p"
  by (simp add: array_at_def nth_append)

lemma gaussian_noise_ref_eq:
  assumes "frame < length (heap s)"
  shows "gaussian_noise_ref lib frame sigma s =
           (case gaussian_noise lib (array_at s frame) sigma (cv_random s) of
              Inl e \<Rightarrow> Inl e
            | Inr (a, cg) \<Rightarrow>
                Inr (Suc (length (heap s)),
                     s\<lparr>heap := heap s @ [fst (cv2_randn lib (zeros_like (array_at s frame)) sigma (cv_random s)), a],
                       cv_random := cg\<rparr>))"
  using assms
  by (simp add: gaussian_noise_ref_def gaussian_noise_def new_array_def put_array_def array_at_def
        nth_append Let_def split_def split: sum.splits)

lemma salt_and_pepper_noise_ref_eq:
  assumes "frame < length (heap s)"
  shows "salt_and_pepper_noise_ref frame amount s =
           (case salt_and_pepper_noise (array_at s frame) amount (np_random s) of
              Inl e \<Rightarrow> Inl e
            | Inr (a, g) \<Rightarrow> Inr (length (heap s), s\<lparr>heap := heap s @ [a], np_random := g\<rparr>))"
  using assms
  by (simp add: salt_and_pepper_noise_ref_def salt_and_pepper_noise_def new_array_def put_array_def
        array_at_def nth_append Let_def split: sum.splits prod.splits)

lemma vignette_loop_ref_eq:
  assumes "frame < length (heap s)" and "vf < length (heap s)" and "vf \<noteq> frame"
  shows "vignette_loop_ref frame msk js vf s =
           (case vignette_loop (array_at s frame) msk js (array_at s vf) of
              Inl e \<Rightarrow> Inl e
            | Inr a \<Rightarrow> Inr (put_array vf a s))"
  using assms
proof (induction js arbitrary: s)
  case Nil
  then show ?case by (simp add: put_array_def array_at_def)
next
  case (Cons i js)
  define x where "x = set_channel i
              (map2 (map2 (\<lambda>px m. truncate_u8 (of_nat (unat (px ! i)) * m))) (array_at s frame) msk)
              (array_at s vf)"
  let ?s = "put_array vf x s"
  have s: "frame < length (heap ?s)" "vf < length (heap ?s)"
    "array_at ?s frame = array_at s frame" "array_at ?s vf = x"
    using Cons.prems by (simp_all add: put_array_def array_at_def)
  have twice: "put_array vf a ?s = put_array vf a s" for a
    by (simp add: put_array_def)
  show ?case
  proof (cases "depth (array_at s frame) \<le> i \<or> map length (array_at s frame) \<noteq> map length msk")
    case True
    then show ?thesis by auto
  next
    case False
    then have "vignette_loop_ref frame msk (i # js) vf s = vignette_loop_ref frame msk js vf ?s"
      and "vignette_loop (array_at s frame) msk (i # js) (array_at s vf) =
           vignette_loop (array_at s frame) msk js x"
      by (simp_all add: x_def)
    then show ?thesis
      using Cons.IH [OF s(1,2) Cons.prems(3)] by (simp only: s(3,4) twice)
  qed
qed

lemma dust_loop_ref_eq:
  assumes "d < length (heap s)"
  shows "dust_loop_ref lib h w n d s =
           (case dust_loop lib h w n (array_at s d) (np_random s) of
              Inl e \<Rightarrow> Inl e
            | Inr (a, g) \<Rightarrow> Inr (put_array d a (s\<lparr>np_random := g\<rparr>)))"
  using assms
proof (induction n arbitrary: s)
  case 0
  then show ?case by (simp add: put_array_def array_at_def)
next
  case (Suc n)
  show ?case
  proof (cases "randint1 0 (int w) (np_random s)")
    case (Inl e) then show ?thesis by simp
  next
    case x: (Inr xg)
    obtain x g1 where xg: "xg = (x, g1)" by (cases xg)
    show ?thesis
    proof (cases "randint1 0 (int h) g1")
      case (Inl e) then show ?thesis by (simp add: x xg)
    next
      case y: (Inr yg)
      obtain y g2 where yg: "yg = (y, g2)" by (cases yg)
      show ?thesis
      proof (cases "randint1 5 15 g2")
        case (Inl e) then show ?thesis by (simp add: x xg y yg)
      next
        case r: (Inr rg)
        obtain r g3 where rg: "rg = (r, g3)" by (cases rg)
        show ?thesis
        proof (cases "randint1 50 100 g3")
          case (Inl e) then show ?thesis by (simp add: x xg y yg r rg)
        next
          case c: (Inr cg)
          obtain c g4 where cg: "cg = (c, g4)" by (cases cg)
          let ?s = "put_array d (cv2_circle lib (array_at s d) (x, y) r c) (s\<lparr>np_random := g4\<rparr>)"
          have s: "d < length (heap ?s)" "np_random ?s = g4"
            "array_at ?s d = cv2_circle lib (array_at s d) (x, y) r c"
            using Suc.prems by (simp_all add: put_array_def array_at_def)
          have twice: "put_array d a (?s\<lparr>np_random := g\<rparr>) = put_array d a (s\<lparr>np_random := g\<rparr>)" for a g
            by (simp add: put_array_def)
          show ?thesis
            using Suc.IH [OF s(1)]
            by (simp add: x xg y yg r rg c cg s(2,3) twice cong: sum.case_cong prod.case_cong)
        qed
      qed
    qed
  qed
qed

lemma vignetting_ref_eq:
  assumes "frame < length (heap s)"
  shows "vignetting_ref lib frame s =
           (case vignetting lib (array_at s frame) of
              Inl e \<Rightarrow> Inl e
            | Inr a \<Rightarrow> Inr (length (heap s), s\<lparr>heap := heap s @ [a]\<rparr>))"
proof -
  define kern where "kern = outer_product
      (gaussian_kernel lib (height (array_at s frame)) (of_nat (height (array_at s frame)) / 2))
      (gaussian_kernel lib (width (array_at s frame)) (of_nat (width (array_at s frame)) / 2))"
  let ?s1 = "s\<lparr>heap := heap s @ [zeros_like (array_at s frame)]\<rparr>"
  have s1: "frame < length (heap ?s1)" "length (heap s) < length (heap ?s1)" "length (heap s) \<noteq> frame"
    "array_at ?s1 frame = array_at s frame" "array_at ?s1 (length (heap s)) = zeros_like (array_at s frame)"
    using assms by (simp_all add: array_at_def nth_append)
  have put: "put_array (length (heap s)) a ?s1 = s\<lparr>heap := heap s @ [a]\<rparr>" for a
    by (simp add: put_array_def)
  have l: "vignetting_ref lib frame s =
      (case concat kern of [] \<Rightarrow> Inl ValueError
       | x # xs \<Rightarrow>
          (case vignette_loop_ref frame (map (map (\<lambda>v. v / fold max xs x)) kern) [0..<3] (length (heap s)) ?s1 of
             Inl e \<Rightarrow> Inl e | Inr s2 \<Rightarrow> Inr (length (heap s), s2)))"
    unfolding vignetting_ref_def new_array_def Let_def kern_def by (simp cong: list.case_cong)
  have r: "vignetting lib (array_at s frame) =
      (case concat kern of [] \<Rightarrow> Inl ValueError
       | x # xs \<Rightarrow> vignette_loop (array_at s frame) (map (map (\<lambda>v. v / fold max xs x)) kern) [0..<3]
            (zeros_like (array_at s frame)))"
    unfolding vignetting_def Let_def kern_def by (simp cong: list.case_cong)
  show ?thesis
  proof (cases "concat kern")
    case Nil
    then show ?thesis unfolding l r by (simp only: list.case sum.case)
  next
    case (Cons x xs)
    show ?thesis unfolding l r Cons list.case vignette_loop_ref_eq [OF s1(1,2,3)] s1(4,5)
      by (simp add: put split: sum.splits)
  qed
qed

lemma dust_dirt_particles_ref_eq:
  assumes "frame < length (heap s)"
  shows "dust_dirt_particles_ref lib frame n s =
           (case dust_dirt_particles lib (array_at s frame) n (np_random s) of
              Inl e \<Rightarrow> Inl e
            | Inr (a, g) \<Rightarrow> Inr (length (heap s), s\<lparr>heap := heap s @ [a], np_random := g\<rparr>))"
proof -
  let ?s1 = "s\<lparr>heap := heap s @ [array_at s frame]\<rparr>"
  have s1: "length (heap s) < length (heap ?s1)" "array_at ?s1 frame = array_at s frame"
    "array_at ?s1 (length (heap s)) = array_at s frame" "np_random ?s1 = np_random s"
    using assms by (simp_all add: array_at_def nth_append)
  have put: "put_array (length (heap s)) a (?s1\<lparr>np_random := g\<rparr>) = s\<lparr>heap := heap s @ [a], np_random := g\<rparr>" for a g
    by (simp add: put_array_def)
  show ?thesis
    by (simp add: dust_dirt_particles_ref_def dust_dirt_particles_def new_array_def Let_def
          dust_loop_ref_eq [OF s1(1)] s1(2,3,4) put split: sum.splits prod.splits)
qed

lemma draws_from_refl [simp]: "draws_from g g"
  unfolding draws_from_def by (rule exI [of _ 0]) (simp add: advance_def)

lemma draws_from_advance [simp]: "draws_from g (advance n g)"
  unfolding draws_from_def by blast

lemma draws_from_trans: "draws_from g g' \<Longrightarrow> draws_from g' g'' \<Longrightarrow> draws_from g g''"
  unfolding draws_from_def by (metis advance_advance)

lemma new_result_append:
  "new_result s (length (heap s)) (s\<lparr>heap := heap s @ [a]\<rparr>)"
  by (simp add: new_result_def only_allocates_def array_at_def nth_append)

lemma new_result_append_np:
  "new_result s (length (heap s)) (s\<lparr>heap := heap s @ [a], np_random := g\<rparr>)"
  by (simp add: new_result_def only_allocates_def array_at_def nth_append)

lemma new_result_append2_cv:
  "new_result s (Suc (length (heap s))) (s\<lparr>heap := heap s @ [a, b], cv_random := g\<rparr>)"
  by (simp add: new_result_def only_allocates_def array_at_def nth_append)

lemma randint1_Inr: "randint1 low high g = Inr (x, g') \<Longrightarrow> g' = advance 1 g"
  by (auto simp: randint1_def split: if_splits)

lemma dust_loop_Inr:
  assumes "dust_loop lib h w n a g = Inr (G, g')"
  shows "g' = advance (4 * n) g"
  using assms
proof (induction n arbitrary: a g)
  case 0
  then show ?case by (simp add: advance_def)
next
  case (Suc n)
  from Suc.prems obtain x g1 y g2 r g3 c g4 where
    x: "randint1 0 (int w) g = Inr (x, g1)" and y: "randint1 0 (int h) g1 = Inr (y, g2)" and
    r: "randint1 5 15 g2 = Inr (r, g3)" and c: "randint1 50 100 g3 = Inr (c, g4)" and
    rest: "dust_loop lib h w n (cv2_circle lib a (x, y) r c) g4 = Inr (G, g')"
    by (auto split: sum.splits prod.splits)
  have "g4 = advance 1 (advance 1 (advance 1 (advance 1 g)))"
    using randint1_Inr [OF x] randint1_Inr [OF y] randint1_Inr [OF r] randint1_Inr [OF c] by simp
  moreover have "4 * n + (1 + (1 + (1 + 1))) = 4 * Suc n" by simp
  ultimately show ?case using Suc.IH [OF rest] by (simp only: advance_advance)
qed

lemma salt_and_pepper_draws:
  assumes "salt_and_pepper_noise F amount g = Inr (G, g')"
  shows "draws_from g g'"
proof -
  obtain rows cols chans g1 rows' cols' chans' where
    s: "sample_coords F (num_salt F amount) g = Inr ((rows, cols, chans), g1)" and
    p: "sample_coords F (num_pepper F amount) g1 = Inr ((rows', cols', chans'), g')"
    using salt_and_pepper_Inr [OF assms] by blast
  have "draws_from g g1" "draws_from g1 g'"
    using sample_coords_Inr(6) [OF s] sample_coords_Inr(6) [OF p] by simp_all
  then show ?thesis by (rule draws_from_trans)
qed

lemma gaussian_noise_ref_effect:
  assumes "frame < length (heap s)" and "gaussian_noise_ref lib frame sigma s = Inr (r, s')"
  shows "new_result s r s'" and "np_random s' = np_random s" and "draws_from (cv_random s) (cv_random s')"
proof -
  obtain G where G: "gaussian_noise lib (array_at s frame) sigma (cv_random s) =
      Inr (G, advance (size_of (array_at s frame)) (cv_random s))"
    using gaussian_noise_returns by blast
  have r: "r = Suc (length (heap s))" and
    s': "s' = s\<lparr>heap := heap s @ [fst (cv2_randn lib (zeros_like (array_at s frame)) sigma (cv_random s)), G],
                cv_random := advance (size_of (array_at s frame)) (cv_random s)\<rparr>"
    using assms(2) unfolding gaussian_noise_ref_eq [OF assms(1)] G by simp_all
  show "new_result s r s'" unfolding r s' by (rule new_result_append2_cv)
  show "np_random s' = np_random s" "draws_from (cv_random s) (cv_random s')"
    by (simp_all add: s')
qed

lemma pure_ref_effect:
  assumes "(case v of Inl e \<Rightarrow> Inl e | Inr a \<Rightarrow> Inr (new_array a s)) = Inr (r, s')"
  shows "new_result s r s'" and "np_random s' = np_random s" and "cv_random s' = cv_random s"
proof -
  obtain a where "v = Inr a" and "r = length (heap s)" and s': "s' = s\<lparr>heap := heap s @ [a]\<rparr>"
    using assms by (cases v) (auto simp: new_array_def)
  then show "new_result s r s'" using new_result_append by simp
  show "np_random s' = np_random s" "cv_random s' = cv_random s" by (simp_all add: s')
qed

lemma salt_and_pepper_noise_ref_effect:
  assumes "frame < length (heap s)" and "salt_and_pepper_noise_ref frame amount s = Inr (r, s')"
  shows "new_result s r s'" and "draws_from (np_random s) (np_random s')" and "cv_random s' = cv_random s"
proof -
  obtain G g where run: "salt_and_pepper_noise (array_at s frame) amount (np_random s) = Inr (G, g)"
    and r: "r = length (heap s)" and s': "s' = s\<lparr>heap := heap s @ [G], np_random := g\<rparr>"
    using assms(2) unfolding salt_and_pepper_noise_ref_eq [OF assms(1)]
    by (auto split: sum.splits prod.splits)
  show "new_result s r s'" unfolding r s' by (rule new_result_append_np)
  show "draws_from (np_random s) (np_random s')" using salt_and_pepper_draws [OF run] by (simp add: s')
  show "cv_random s' = cv_random s" by (simp add: s')
qed

lemma vignetting_ref_effect:
  assumes "frame < length (heap s)" and "vignetting_ref lib frame s = Inr (r, s')"
  shows "new_result s r s'" and "np_random s' = np_random s" and "cv_random s' = cv_random s"
  using assms(2) unfolding vignetting_ref_eq [OF assms(1)]
  by (rule pure_ref_effect [unfolded new_array_def])+

lemma dust_dirt_particles_ref_effect:
  assumes "frame < length (heap s)" and "dust_dirt_particles_ref lib frame n s = Inr (r, s')"
  shows "new_result s r s'" and "draws_from (np_random s) (np_random s')" and "cv_random s' = cv_random s"
proof -
  obtain G g where run: "dust_dirt_particles lib (array_at s frame) n (np_random s) = Inr (G, g)"
    and r: "r = length (heap s)" and s': "s' = s\<lparr>heap := heap s @ [G], np_random := g\<rparr>"
    using assms(2) unfolding dust_dirt_particles_ref_eq [OF assms(1)]
    by (auto split: sum.splits prod.splits)
  show "new_result s r s'" unfolding r s' by (rule new_result_append_np)
  have "g = advance (4 * nat n) (np_random s)"
    using run dust_loop_Inr by (simp add: dust_dirt_particles_def)
  then show "draws_from (np_random s) (np_random s')" by (simp add: s')
  show "cv_random s' = cv_random s" by (simp add: s')
qed

text \<open>
  Claim C9, as amended. When a transform returns, every array that existed before the
  call, the input frame among them, has the contents it had; the result is an array
  that did not exist before; the console and the files are untouched. The only other
  effect is on the generators: \<open>gaussian_noise\<close> draws from OpenCV's and
  \<open>salt_and_pepper_noise\<close> and \<open>dust_dirt_particles\<close> draw from NumPy's, which are
  left advanced; the other six transforms leave both as they were.
\<close>

theorem transforms_leave_arrays_alone:
  assumes "frame < length (heap s)"
  shows
    "(\<forall>r s'. gaussian_noise_ref lib frame sigma s = Inr (r, s') \<longrightarrow>
        new_result s r s' \<and> np_random s' = np_random s \<and> draws_from (cv_random s) (cv_random s')) \<and>
     (\<forall>r s'. compression_artifacts_ref lib frame q s = Inr (r, s') \<longrightarrow>
        new_result s r s' \<and> np_random s' = np_random s \<and> cv_random s' = cv_random s) \<and>
     (\<forall>r s'. motion_blur_ref frame ks s = Inr (r, s') \<longrightarrow>
        new_result s r s' \<and> np_random s' = np_random s \<and> cv_random s' = cv_random s) \<and>
     (\<forall>r s'. color_banding_ref pr frame levels s = Inr (r, s') \<longrightarrow>
        new_result s r s' \<and> np_random s' = np_random s \<and> cv_random s' = cv_random s) \<and>
     (\<forall>r s'. salt_and_pepper_noise_ref frame amount s = Inr (r, s') \<longrightarrow>
        new_result s r s' \<and> draws_from (np_random s) (np_random s') \<and> cv_random s' = cv_random s) \<and>
     (\<forall>r s'. lens_distortion_ref lib frame k1 k2 s = Inr (r, s') \<longrightarrow>
        new_result s r s' \<and> np_random s' = np_random s \<and> cv_random s' = cv_random s) \<and>
     (\<forall>r s'. vignetting_ref lib frame s = Inr (r, s') \<longrightarrow>
        new_result s r s' \<and> np_random s' = np_random s \<and> cv_random s' = cv_random s) \<and>
     (\<forall>r s'. chromatic_aberration_ref frame shift s = Inr (r, s') \<longrightarrow>
        new_result s r s' \<and> np_random s' = np_random s \<and> cv_random s' = cv_random s) \<and>
     (\<forall>r s'. dust_dirt_particles_ref lib frame n s = Inr (r, s') \<longrightarrow>
        new_result s r s' \<and> draws_from (np_random s) (np_random s') \<and> cv_random s' = cv_random s)"
proof (intro conjI allI impI)
  fix r s'
  {
    assume "gaussian_noise_ref lib frame sigma s = Inr (r, s')"
    from gaussian_noise_ref_effect [OF assms this]
    show "new_result s r s'" "np_random s' = np_random s" "draws_from (cv_random s) (cv_random s')" .
  }
  {
    assume "compression_artifacts_ref lib frame q s = Inr (r, s')"
    then have "(case (Inr (compression_artifacts lib (array_at s frame) q) :: error + frame) of
        Inl e \<Rightarrow> Inl e | Inr a \<Rightarrow> Inr (new_array a s)) = Inr (r, s')"
      by (simp add: compression_artifacts_ref_def)
    from pure_ref_effect [OF this]
    show "new_result s r s'" "np_random s' = np_random s" "cv_random s' = cv_random s" .
  }
  {
    assume "motion_blur_ref frame ks s = Inr (r, s')"
    from pure_ref_effect [OF this [unfolded motion_blur_ref_def]]
    show "new_result s r s'" "np_random s' = np_random s" "cv_random s' = cv_random s" .
  }
  {
    assume "color_banding_ref pr frame levels s = Inr (r, s')"
    from pure_ref_effect [OF this [unfolded color_banding_ref_def]]
    show "new_result s r s'" "np_random s' = np_random s" "cv_random s' = cv_random s" .
  }
  {
    assume "salt_and_pepper_noise_ref frame amount s = Inr (r, s')"
    from salt_and_pepper_noise_ref_effect [OF assms this]
    show "new_result s r s'" "draws_from (np_random s) (np_random s')" "cv_random s' = cv_random s" .
  }
  {
    assume "lens_distortion_ref lib frame k1 k2 s = Inr (r, s')"
    then have "(case (Inr (lens_distortion lib (array_at s frame) k1 k2) :: error + frame) of
        Inl e \<Rightarrow> Inl e | Inr a \<Rightarrow> Inr (new_array a s)) = Inr (r, s')"
      by (simp add: lens_distortion_ref_def)
    from pure_ref_effect [OF this]
    show "new_result s r s'" "np_random s' = np_random s" "cv_random s' = cv_random s" .
  }
  {
    assume "vignetting_ref lib frame s = Inr (r, s')"
    from vignetting_ref_effect [OF assms this]
    show "new_result s r s'" "np_random s' = np_random s" "cv_random s' = cv_random s" .
  }
  {
    assume "chromatic_aberration_ref frame shift s = Inr (r, s')"
    from pure_ref_effect [OF this [unfolded chromatic_aberration_ref_def]]
    show "new_result s r s'" "np_random s' = np_random s" "cv_random s' = cv_random s" .
  }
  {
    assume "dust_dirt_particles_ref lib frame n s = Inr (r, s')"
    from dust_dirt_particles_ref_effect [OF assms this]
    show "new_result s r s'" "draws_from (np_random s) (np_random s')" "cv_random s' = cv_random s" .
  }
qed

theorem transforms_leave_arrays_alone_witness:
  "0 < length (heap \<lparr>heap = [[[[1, 2, 3], [4, 5, 6]], [[7, 8, 9], [10, 11, 12]]]],
        np_random = (\<lambda>k. k), cv_random = (\<lambda>k. k), console = [], videos = Map.empty, images = Map.empty\<rparr>) \<and>
   (\<exists>r s'. salt_and_pepper_noise_ref 0 (1 / 2)
        \<lparr>heap = [[[[1, 2, 3], [4, 5, 6]], [[7, 8, 9], [10, 11, 12]]]],
         np_random = (\<lambda>k. k), cv_random = (\<lambda>k. k), console = [], videos = Map.empty, images = Map.empty\<rparr> = Inr (r, s') \<and>
      r = 1 \<and>
      heap s' = [[[[1, 2, 3], [4, 5, 6]], [[7, 8, 9], [10, 11, 12]]],
                 [[[0, 0, 0], [4, 5, 6]], [[7, 8, 9], [10, 11, 12]]]] \<and>
      new_result \<lparr>heap = [[[[1, 2, 3], [4, 5, 6]], [[7, 8, 9], [10, 11, 12]]]],
         np_random = (\<lambda>k. k), cv_random = (\<lambda>k. k), console = [], videos = Map.empty, images = Map.empty\<rparr> r s')"
proof -
  let ?w = "\<lparr>heap = [[[[1, 2, 3], [4, 5, 6]], [[7, 8, 9], [10, 11, 12]]]],
        np_random = (\<lambda>k. k), cv_random = (\<lambda>k. k), console = [], videos = Map.empty, images = Map.empty\<rparr>"
  have h: "0 < length (heap ?w)" by simp
  have "case salt_and_pepper_noise_ref 0 (1 / 2) ?w of
          Inl e \<Rightarrow> False
        | Inr (r, s') \<Rightarrow> r = 1 \<and>
            heap s' = [[[[1, 2, 3], [4, 5, 6]], [[7, 8, 9], [10, 11, 12]]],
                       [[[0, 0, 0], [4, 5, 6]], [[7, 8, 9], [10, 11, 12]]]]"
    by code_simp
  then obtain r s' where run: "salt_and_pepper_noise_ref 0 (1 / 2) ?w = Inr (r, s')" "r = 1"
    "heap s' = [[[[1, 2, 3], [4, 5, 6]], [[7, 8, 9], [10, 11, 12]]],
                [[[0, 0, 0], [4, 5, 6]], [[7, 8, 9], [10, 11, 12]]]]"
    by (auto split: sum.splits)
  from transforms_leave_arrays_alone [OF h, of _ _ _ _ _ _ "1 / 2"] run(1)
  have "new_result ?w r s'" by blast
  then show ?thesis using h run by blast
qed

text \<open>
  Claim C9 as stated fails in its second half: after \<open>salt_and_pepper_noise\<close> with
  amount one half on a frame of two rows and two columns, the next raw draw of NumPy's
  generator is the one at position 18 and no longer the one at position 0.
\<close>

theorem transforms_leave_arrays_alone_counterexample:
  "np_random \<lparr>heap = [[[[1, 2, 3], [4, 5, 6]], [[7, 8, 9], [10, 11, 12]]]],
        np_random = (\<lambda>k. k), cv_random = (\<lambda>k. k), console = [], videos = Map.empty, images = Map.empty\<rparr> 0 = 0 \<and>
   (case salt_and_pepper_noise_ref 0 (1 / 2)
        \<lparr>heap = [[[[1, 2, 3], [4, 5, 6]], [[7, 8, 9], [10, 11, 12]]]],
         np_random = (\<lambda>k. k), cv_random = (\<lambda>k. k), console = [], videos = Map.empty, images = Map.empty\<rparr> of
      Inl e \<Rightarrow> False
    | Inr (r, s') \<Rightarrow> np_random s' 0 = 18)"
  by code_simp

end
